theory Spec2Isabelle
  imports Complex_Main "HOL-Library.Sublist" "HOL-Library.AList" "HOL-Library.Multiset"
begin

section \<open>Text\<close>

text \<open>
  A Python \<open>str\<close> is a \<open>string\<close>. The embedding follows the source on ASCII text, where
  \<open>str.lower\<close>, \<open>str.title\<close>, \<open>str.strip\<close> and the regular-expression classes \<open>\s\<close> and \<open>\d\<close>
  have their ASCII meaning; any other character is uncased and is neither whitespace nor a
  digit. \<open>x in y\<close> on two strings is \<open>sublist x y\<close>.
\<close>

definition is_upper :: "char \<Rightarrow> bool" where
  "is_upper c \<longleftrightarrow> 65 \<le> (of_char c :: nat) \<and> (of_char c :: nat) \<le> 90"

definition is_lower :: "char \<Rightarrow> bool" where
  "is_lower c \<longleftrightarrow> 97 \<le> (of_char c :: nat) \<and> (of_char c :: nat) \<le> 122"

definition is_digit :: "char \<Rightarrow> bool" where
  "is_digit c \<longleftrightarrow> 48 \<le> (of_char c :: nat) \<and> (of_char c :: nat) \<le> 57"

definition is_space :: "char \<Rightarrow> bool" where
  \<comment> \<open>tab, newline, vertical tab, form feed, carriage return, the four separators
      \<open>0x1c..0x1f\<close> and the space\<close>
  "is_space c \<longleftrightarrow> (9 \<le> (of_char c :: nat) \<and> (of_char c :: nat) \<le> 13)
     \<or> (28 \<le> (of_char c :: nat) \<and> (of_char c :: nat) \<le> 32)"

definition lower_char :: "char \<Rightarrow> char" where
  "lower_char c = (if is_upper c then char_of ((of_char c :: nat) + 32) else c)"

definition upper_char :: "char \<Rightarrow> char" where
  "upper_char c = (if is_lower c then char_of ((of_char c :: nat) - 32) else c)"

definition lower :: "string \<Rightarrow> string" where
  \<comment> \<open>\<open>str.lower()\<close>\<close>
  "lower s = map lower_char s"

definition is_separator :: "char \<Rightarrow> bool" where
  \<comment> \<open>the character class \<open>[-_/\\.,;:|]\<close>; \<open>0x5C\<close> is the backslash\<close>
  "is_separator c \<longleftrightarrow> c \<in> set ''-_/.,;:|'' \<or> c = CHR 0x5C"

definition sub_separators :: "string \<Rightarrow> string" where
  \<comment> \<open>\<open>re.sub(r'[-_/\\.,;:|]', ' ', text)\<close>\<close>
  "sub_separators s = map (\<lambda>c. if is_separator c then CHR '' '' else c) s"

function collapse_ws :: "string \<Rightarrow> string" where
  \<comment> \<open>\<open>re.sub(r'\s+', ' ', text)\<close>: every maximal run of whitespace becomes one space\<close>
  "collapse_ws [] = []"
| "collapse_ws (c # cs) =
     (if is_space c then CHR '' '' # collapse_ws (dropWhile is_space cs)
      else c # collapse_ws cs)"
  by pat_completeness auto
termination
  by (relation "measure length") (auto simp: le_imp_less_Suc length_dropWhile_le)

definition strip :: "string \<Rightarrow> string" where
  \<comment> \<open>\<open>str.strip()\<close>\<close>
  "strip s = rev (dropWhile is_space (rev (dropWhile is_space s)))"

definition normalize_text :: "string \<Rightarrow> string" where
  "normalize_text t =
     (if t = [] then []
      else strip (collapse_ws (sub_separators (lower t))))"

text \<open>
  The shape of a normalized text: every whitespace character is a space, and no two
  whitespace characters are adjacent.
\<close>

fun spaced :: "string \<Rightarrow> bool" where
  "spaced [] = True"
| "spaced [c] = (is_space c \<longrightarrow> c = CHR '' '')"
| "spaced (c # d # cs) = ((is_space c \<longrightarrow> c = CHR '' '' \<and> \<not> is_space d) \<and> spaced (d # cs))"

definition canonical_char :: "char \<Rightarrow> bool" where
  \<comment> \<open>a character that lower-casing and the separator substitution leave alone\<close>
  "canonical_char c \<longleftrightarrow> lower_char c = c \<and> \<not> is_separator c"

section \<open>Title extraction\<close>

fun last_piece :: "string \<Rightarrow> nat \<Rightarrow> string \<Rightarrow> string \<Rightarrow> string" where
  \<comment> \<open>\<open>s.split(sep)[-1]\<close> is \<open>last_piece sep 0 [] s\<close>: the scan goes left to right over
      non-overlapping occurrences of \<open>sep\<close>; \<open>k\<close> counts the characters of a found
      occurrence still to skip, \<open>acc\<close> is the piece since the last occurrence\<close>
  "last_piece sep k acc [] = acc"
| "last_piece sep k acc (c # cs) =
     (if 0 < k then last_piece sep (k - 1) acc cs
      else if prefix sep (c # cs) then last_piece sep (length sep - 1) [] cs
      else last_piece sep 0 (acc @ [c]) cs)"

fun first_piece :: "string \<Rightarrow> string \<Rightarrow> string" where
  \<comment> \<open>\<open>s.split(sep)[0]\<close>\<close>
  "first_piece sep [] = []"
| "first_piece sep (c # cs) = (if prefix sep (c # cs) then [] else c # first_piece sep cs)"

definition strip_trailing_id :: "string \<Rightarrow> string" where
  \<comment> \<open>\<open>re.sub(r'-\d+$', '', path)\<close>; \<open>$\<close> also matches before one final newline\<close>
  "strip_trailing_id path =
     (let nl = (if path \<noteq> [] \<and> last path = CHR 0x0A then [CHR 0x0A] else []);
          body = (if nl = [] then path else butlast path);
          digits = takeWhile is_digit (rev body);
          rest = drop (length digits) (rev body)
      in if digits \<noteq> [] \<and> rest \<noteq> [] \<and> hd rest = CHR ''-'' then rev (tl rest) @ nl
         else path)"

fun title_case :: "bool \<Rightarrow> string \<Rightarrow> string" where
  \<comment> \<open>\<open>str.title()\<close> is \<open>title_case False\<close>; the flag says whether the previous character
      is a letter\<close>
  "title_case prev [] = []"
| "title_case prev (c # cs) =
     (if is_lower c then (if prev then c else upper_char c) # title_case True cs
      else if is_upper c then (if prev then lower_char c else c) # title_case True cs
      else c # title_case False cs)"

definition extract_title_from_url :: "string \<Rightarrow> string" where
  "extract_title_from_url job_link =
     (if job_link = [] then []
      else if sublist ''/view/'' job_link then
        (let path = last_piece ''/view/'' 0 [] job_link;
             path = strip_trailing_id path;
             path = (if sublist ''-at-'' path then first_piece ''-at-'' path else path);
             title = strip (map (\<lambda>c. if c = CHR ''-'' then CHR '' '' else c) path)
         in title_case False title)
      else [])"

section \<open>Indicator framework\<close>

datatype error = KeyError string | IOError string | BinderError string | ValueError

record type_data =
  type_name :: "string option"
  strong :: "string list"
  moderate :: "string list"
  type_keywords :: "string list"

text \<open>
  \<open>RIASEC_TYPES\<close> is a dict from a letter to its data, iterated in insertion order: an
  association list. An absent \<open>skill_indicators\<close>, \<open>strong\<close>, \<open>moderate\<close> or \<open>keywords\<close> entry (the field \<open>type_keywords\<close>)
  reads as the empty list, as the \<open>.get(..., [])\<close> calls of the source make it.
  \<open>COMBINATIONS\<close> maps a code to a dict or to a plain text.
\<close>

type_synonym framework = "(string \<times> type_data) list"

datatype combo_info = ComboDict "string option" "string option" | ComboText string

type_synonym combinations = "(string \<times> combo_info) list"

definition STRONG_INDICATOR_WEIGHT :: real where
  "STRONG_INDICATOR_WEIGHT = 3"

definition MODERATE_INDICATOR_WEIGHT :: real where
  "MODERATE_INDICATOR_WEIGHT = 3 / 2"

definition KEYWORD_WEIGHT :: real where
  "KEYWORD_WEIGHT = 1"

definition TITLE_BONUS_WEIGHT :: real where
  "TITLE_BONUS_WEIGHT = 2"

definition riasec_letters :: "string list" where
  "riasec_letters = [''R'', ''I'', ''A'', ''S'', ''E'', ''C'']"

section \<open>Classification\<close>

text \<open>
  The two dicts \<open>scores\<close> and \<open>matched\<close> are association lists in the order of their
  creation, R, I, A, S, E, C; an update of a key keeps its place, and reading or updating a
  missing key raises \<open>KeyError\<close>. A Python float is a real number here: every score is a
  sum of the weights 3.0, 2.0, 1.5 and 1.0, which binary floating point holds exactly; the
  confidence is computed in real arithmetic, and \<open>round(x, 3)\<close> gives the nearest
  thousandth, with a parameter for what the doubles do where two thousandths are equally
  near (see \<open>round3\<close>).
\<close>

type_synonym score_dict = "(string \<times> real) list"
type_synonym match_dict = "(string \<times> string list) list"

definition add_score :: "string \<Rightarrow> real \<Rightarrow> score_dict \<Rightarrow> error + score_dict" where
  \<comment> \<open>\<open>scores[letter] += w\<close>\<close>
  "add_score letter w sc =
     (case map_of sc letter of
        None \<Rightarrow> Inl (KeyError letter)
      | Some v \<Rightarrow> Inr (AList.update letter (v + w) sc))"

definition append_match :: "string \<Rightarrow> string \<Rightarrow> match_dict \<Rightarrow> error + match_dict" where
  \<comment> \<open>\<open>matched[letter].append(entry)\<close>\<close>
  "append_match letter entry m =
     (case map_of m letter of
        None \<Rightarrow> Inl (KeyError letter)
      | Some es \<Rightarrow> Inr (AList.update letter (es @ [entry]) m))"

definition record_match ::
  "string \<Rightarrow> real \<Rightarrow> string \<Rightarrow> score_dict \<times> match_dict \<Rightarrow> error + score_dict \<times> match_dict" where
  "record_match letter w entry st =
     (case add_score letter w (fst st) of
        Inl e \<Rightarrow> Inl e
      | Inr sc \<Rightarrow>
          (case append_match letter entry (snd st) of
             Inl e \<Rightarrow> Inl e
           | Inr m \<Rightarrow> Inr (sc, m)))"

definition strong_step ::
  "string \<Rightarrow> string \<Rightarrow> string \<Rightarrow> string \<Rightarrow> score_dict \<times> match_dict
     \<Rightarrow> error + score_dict \<times> match_dict" where
  "strong_step combined_text title_text letter skill st =
     (let skill_lower = lower skill
      in if sublist skill_lower combined_text then
           (case record_match letter STRONG_INDICATOR_WEIGHT (skill @ ''(+3.0)'') st of
              Inl e \<Rightarrow> Inl e
            | Inr st1 \<Rightarrow>
                if sublist skill_lower title_text then
                  (case add_score letter TITLE_BONUS_WEIGHT (fst st1) of
                     Inl e \<Rightarrow> Inl e
                   | Inr sc \<Rightarrow> Inr (sc, snd st1))
                else Inr st1)
         else Inr st)"

definition moderate_step ::
  "string \<Rightarrow> string \<Rightarrow> string \<Rightarrow> score_dict \<times> match_dict \<Rightarrow> error + score_dict \<times> match_dict" where
  "moderate_step combined_text letter skill st =
     (let skill_lower = lower skill
      in if sublist skill_lower combined_text then
           (case map_of (snd st) letter of
              None \<Rightarrow> Inl (KeyError letter)
            | Some es \<Rightarrow>
                if \<not> list_ex (\<lambda>m. sublist skill_lower (lower m)) es
                then record_match letter MODERATE_INDICATOR_WEIGHT (skill @ ''(+1.5)'') st
                else Inr st)
         else Inr st)"

definition keyword_step ::
  "string \<Rightarrow> type_data \<Rightarrow> string \<Rightarrow> string \<Rightarrow> score_dict \<times> match_dict
     \<Rightarrow> error + score_dict \<times> match_dict" where
  "keyword_step combined_text type_data letter keyword st =
     (let keyword_lower = lower keyword;
          strong_list = map lower (strong type_data);
          moderate_list = map lower (moderate type_data)
      in if sublist keyword_lower combined_text \<and> keyword_lower \<notin> set strong_list
            \<and> keyword_lower \<notin> set moderate_list
         then record_match letter KEYWORD_WEIGHT (keyword @ ''(+1.0)'') st
         else Inr st)"

fun for_each :: "('a \<Rightarrow> 's \<Rightarrow> error + 's) \<Rightarrow> 'a list \<Rightarrow> 's \<Rightarrow> error + 's" where
  \<comment> \<open>a \<open>for\<close> loop whose body may raise: the first error ends it\<close>
  "for_each body [] s = Inr s"
| "for_each body (x # xs) s =
     (case body x s of Inl e \<Rightarrow> Inl e | Inr s' \<Rightarrow> for_each body xs s')"

definition score_type ::
  "string \<Rightarrow> string \<Rightarrow> string \<times> type_data \<Rightarrow> score_dict \<times> match_dict
     \<Rightarrow> error + score_dict \<times> match_dict" where
  \<comment> \<open>the body of the loop over \<open>RIASEC_TYPES.items()\<close>\<close>
  "score_type combined_text title_text item st =
     (case for_each (strong_step combined_text title_text (fst item)) (strong (snd item)) st of
        Inl e \<Rightarrow> Inl e
      | Inr st1 \<Rightarrow>
          (case for_each (moderate_step combined_text (fst item)) (moderate (snd item)) st1 of
             Inl e \<Rightarrow> Inl e
           | Inr st2 \<Rightarrow>
               for_each (keyword_step combined_text (snd item) (fst item))
                 (type_keywords (snd item)) st2))"

definition calculate_riasec_scores ::
  "framework \<Rightarrow> string \<Rightarrow> string \<Rightarrow> error + score_dict \<times> match_dict" where
  "calculate_riasec_scores RIASEC_TYPES skills_text job_title =
     (let combined_text = normalize_text (job_title @ '' '' @ skills_text);
          title_text = normalize_text job_title;
          scores = map (\<lambda>letter. (letter, 0)) riasec_letters;
          matched = map (\<lambda>letter. (letter, [])) riasec_letters
      in for_each (score_type combined_text title_text) RIASEC_TYPES (scores, matched))"

definition sorted_scores :: "score_dict \<Rightarrow> score_dict" where
  \<comment> \<open>\<open>sorted(scores.items(), key=lambda x: x[1], reverse=True)\<close>: Python's sort is stable,
      also with \<open>reverse=True\<close>, so equal scores keep the order of the dict\<close>
  "sorted_scores sc = sort_key (\<lambda>x. - snd x) sc"

definition determine_riasec_code :: "score_dict \<Rightarrow> string" where
  "determine_riasec_code sc =
     (let top_3 = foldl (\<lambda>acc x. if snd x > 0 \<and> length acc < 3 then acc @ [fst x] else acc)
                    [] (sorted_scores sc);
          top_3 = (if length top_3 < 3
                   then (let remaining = map fst (filter (\<lambda>x. fst x \<notin> set top_3) (sorted_scores sc))
                         in top_3 @ take (3 - length top_3) remaining)
                   else top_3)
      in concat (take 3 top_3))"

definition calculate_confidence :: "score_dict \<Rightarrow> real" where
  "calculate_confidence sc =
     (let total_score = sum_list (map snd sc)
      in if total_score = 0 then 0
         else (let top_score = hd (sort_key (\<lambda>x. - x) (map snd sc));
                   dominance = top_score / total_score;
                   evidence_factor = min (total_score / 10) 1;
                   confidence = dominance * (6 / 10) + evidence_factor * (4 / 10)
               in min confidence 1))"

definition round_nearest :: "(real \<Rightarrow> bool) \<Rightarrow> real \<Rightarrow> int" where
  \<comment> \<open>the integer nearest to \<open>y\<close>; exactly halfway between two integers, \<open>tie_up y\<close> says
      whether it is the upper one\<close>
  "round_nearest tie_up y =
     (let f = \<lfloor>y\<rfloor>; d = y - of_int f
      in if d < 1 / 2 then f else if 1 / 2 < d then f + 1 else if tie_up y then f + 1 else f)"

definition round3 :: "(real \<Rightarrow> bool) \<Rightarrow> real \<Rightarrow> real" where
  \<comment> \<open>\<open>round(x, 3)\<close>. The source rounds the double that \<open>calculate_confidence\<close> returned. The
      scores are multiples of 0.5, so for a framework of any practical size the distance of
      that double from the real value of the formula is far below the distance of the real
      value from the middle of two thousandths, unless the real value is such a middle; so
      the result is the nearest thousandth of the real value, and at a middle (scores 13 and
      3 give 0.8875) the rounding errors of the doubles decide between the two neighbours.
      \<open>tie_up\<close> stands for that decision, and every theorem holds for all \<open>tie_up\<close>.\<close>
  "round3 tie_up x = of_int (round_nearest tie_up (x * 1000)) / 1000"

record classification =
  riasec_code :: string
  primary_type :: string
  scores :: score_dict
  confidence :: real
  total_score :: real
  description :: string
  gift :: string
  matched_indicators :: match_dict

definition combo_description :: "combinations \<Rightarrow> string \<Rightarrow> string \<times> string" where
  \<comment> \<open>the description and the gift of a code\<close>
  "combo_description COMBINATIONS code =
     (case map_of COMBINATIONS code of
        None \<Rightarrow> (''No description available'', [])
      | Some (ComboDict d g) \<Rightarrow>
          (case d of None \<Rightarrow> ''No description available'' | Some t \<Rightarrow> t,
           case g of None \<Rightarrow> [] | Some t \<Rightarrow> t)
      | Some (ComboText t) \<Rightarrow> (if t \<noteq> [] then t else ''No description available'', []))"

definition classify_job ::
  "(real \<Rightarrow> bool) \<Rightarrow> framework \<Rightarrow> combinations \<Rightarrow> string \<Rightarrow> string \<Rightarrow> string
     \<Rightarrow> error + classification" where
  "classify_job tie_up RIASEC_TYPES COMBINATIONS skills_text job_title job_link =
     (let job_title = (if job_title = [] \<and> job_link \<noteq> [] then extract_title_from_url job_link
                       else job_title)
      in case calculate_riasec_scores RIASEC_TYPES skills_text job_title of
           Inl e \<Rightarrow> Inl e
         | Inr (sc, matched) \<Rightarrow>
             (let code = determine_riasec_code sc;
                  conf = calculate_confidence sc;
                  primary_letter = (if code \<noteq> [] then [hd code] else ''I'')
              in Inr \<lparr> riasec_code = code,
                       primary_type =
                         (case map_of RIASEC_TYPES primary_letter of
                            None \<Rightarrow> ''Unknown''
                          | Some td \<Rightarrow> (case type_name td of None \<Rightarrow> ''Unknown'' | Some n \<Rightarrow> n)),
                       scores = sc,
                       confidence = round3 tie_up conf,
                       total_score = sum_list (map snd sc),
                       description = fst (combo_description COMBINATIONS code),
                       gift = snd (combo_description COMBINATIONS code),
                       matched_indicators = filter (\<lambda>kv. snd kv \<noteq> []) matched \<rparr>))"

section \<open>The embedded framework\<close>

definition embedded_types :: framework where
  \<comment> \<open>the \<open>riasec_types\<close> of \<open>get_embedded_framework\<close> (its \<open>title\<close> strings, which no
      function reads, are left out)\<close>
  "embedded_types =
     [(''R'',
        \<lparr> type_name = Some ''Realistic'',
          strong =
            [''maintenance'', ''repair'', ''construction'', ''welding'', ''plumbing'',
             ''electrical'', ''HVAC'', ''carpentry'', ''machinery'', ''forklift'', ''CDL'',
             ''truck driving'', ''warehouse'', ''manufacturing'', ''assembly'',
             ''installation'', ''mechanical'', ''automotive'', ''diesel'', ''landscaping'',
             ''farming'', ''firefighting'', ''EMT'', ''CPR'', ''BLS''],
          moderate =
            [''hands-on'', ''technical'', ''field work'', ''troubleshooting'', ''inspection'',
             ''quality control'', ''building'', ''fixing''],
          type_keywords = [] \<rparr>),
      (''I'',
        \<lparr> type_name = Some ''Investigative'',
          strong =
            [''research'', ''analysis'', ''data analysis'', ''statistics'', ''analytics'',
             ''programming'', ''software development'', ''Python'', ''Java'', ''JavaScript'',
             ''SQL'', ''machine learning'', ''AI'', ''data science'', ''algorithms'',
             ''debugging'', ''laboratory'', ''clinical research'', ''diagnosis'',
             ''engineering'', ''mathematics'', ''physics'', ''chemistry'', ''biology''],
          moderate =
            [''problem-solving'', ''critical thinking'', ''investigation'', ''evaluation'',
             ''assessment'', ''documentation'', ''technical writing'', ''analytical''],
          type_keywords = [] \<rparr>),
      (''A'',
        \<lparr> type_name = Some ''Artistic'',
          strong =
            [''graphic design'', ''UI design'', ''UX design'', ''visual design'',
             ''web design'', ''illustration'', ''photography'', ''videography'',
             ''video editing'', ''animation'', ''creative writing'', ''copywriting'',
             ''content creation'', ''music'', ''acting'', ''dance'', ''fashion design'',
             ''interior design'', ''Adobe'', ''Photoshop'', ''Illustrator'', ''Figma'',
             ''art direction''],
          moderate =
            [''creative'', ''innovative'', ''artistic'', ''aesthetic'', ''visual'', ''media'',
             ''content'', ''brand'', ''design''],
          type_keywords = [] \<rparr>),
      (''S'',
        \<lparr> type_name = Some ''Social'',
          strong =
            [''teaching'', ''education'', ''training'', ''nursing'', ''patient care'',
             ''caregiving'', ''home health'', ''counseling'', ''therapy'', ''psychology'',
             ''social work'', ''case management'', ''customer service'', ''customer support'',
             ''coaching'', ''mentoring'', ''healthcare'', ''medical'', ''clinical'',
             ''pediatric'', ''geriatric'', ''special education''],
          moderate =
            [''communication'', ''interpersonal'', ''empathy'', ''listening'', ''teamwork'',
             ''collaboration'', ''support'', ''helping'', ''service''],
          type_keywords = [] \<rparr>),
      (''E'',
        \<lparr> type_name = Some ''Enterprising'',
          strong =
            [''sales'', ''business development'', ''account management'', ''management'',
             ''leadership'', ''executive'', ''director'', ''supervisor'', ''marketing'',
             ''advertising'', ''public relations'', ''entrepreneurship'', ''negotiation'',
             ''persuasion'', ''recruiting'', ''real estate'', ''project management'',
             ''operations management''],
          moderate =
            [''strategic'', ''competitive'', ''goal-oriented'', ''results-driven'',
             ''influencing'', ''presenting'', ''pitching'', ''networking'', ''business''],
          type_keywords = [] \<rparr>),
      (''C'',
        \<lparr> type_name = Some ''Conventional'',
          strong =
            [''accounting'', ''bookkeeping'', ''auditing'', ''tax preparation'', ''payroll'',
             ''administrative'', ''clerical'', ''data entry'', ''filing'',
             ''records management'', ''scheduling'', ''compliance'', ''regulatory'',
             ''inventory management'', ''logistics'', ''supply chain'', ''billing'',
             ''invoicing'', ''Microsoft Office'', ''Excel'', ''QuickBooks'', ''SAP''],
          moderate =
            [''organized'', ''detail-oriented'', ''systematic'', ''accurate'', ''precise'',
             ''process'', ''procedure'', ''documentation'', ''reporting''],
          type_keywords = [] \<rparr>)]"

definition get_embedded_framework :: "framework \<times> combinations" where
  "get_embedded_framework = (embedded_types, [])"

definition load_framework :: "(framework \<times> combinations) option \<Rightarrow> framework \<times> combinations" where
  \<comment> \<open>the argument is the content of the framework file, \<open>None\<close> when there is no file\<close>
  "load_framework file = (case file of Some f \<Rightarrow> f | None \<Rightarrow> get_embedded_framework)"

section \<open>Batch pipeline\<close>

text \<open>
  The source is read through SQL queries and the result is saved through pandas. The
  database engine is a library outside the repository: what it answers to a query is part of
  the world of a run, and the theorems say in their hypotheses which answers they rely on.
  The text of a query is fixed by the path of the source, the selected names as they are
  pasted into it, joined by commas, the limit and the offset, so an answer is a function of
  these. A cell of an answer is a text
  or \<open>NULL\<close> (Python's \<open>None\<close>): the columns read from the source are text columns. The
  batch size and the sample size are natural numbers.
\<close>

datatype cell = CNull | CText string

datatype out_value = OCell cell | OText string | ONumber real

type_synonym out_row = "(string \<times> out_value) list"

datatype file_format = Parquet | Csv

datatype event =
    BatchQuery string nat nat
  | Write string file_format "out_row list"

text \<open>
  The world of a run:
  \<^item> \<open>count_query path\<close> is the answer to \<open>SELECT COUNT(*) FROM 'path'\<close>, an error when the
    source cannot be read;
  \<^item> \<open>select_query path names limit processed\<close> is what \<open>fetchall\<close> gives for
    \<open>SELECT names FROM 'path' LIMIT limit OFFSET processed\<close>, where \<open>names\<close> is the text
    \<open>', '.join(select_cols)\<close>;
  \<^item> \<open>writable path\<close> says whether a data frame can be saved to the path;
  \<^item> \<open>effects\<close> lists what has happened: \<open>BatchQuery path limit offset\<close> for a window
    read from the source, \<open>Write path format rows\<close> for a data frame saved to a destination.
\<close>

record world =
  count_query :: "string \<Rightarrow> error + nat"
  select_query :: "string \<Rightarrow> string \<Rightarrow> nat \<Rightarrow> nat \<Rightarrow> error + cell list list"
  writable :: "string \<Rightarrow> bool"
  effects :: "event list"

fun comma_join :: "string list \<Rightarrow> string" where
  \<comment> \<open>\<open>', '.join(select_cols)\<close>\<close>
  "comma_join [] = []"
| "comma_join [c] = c"
| "comma_join (c # d # cs) = c @ '', '' @ comma_join (d # cs)"

definition cell_str :: "cell \<Rightarrow> string" where
  \<comment> \<open>\<open>str(x) if x else ""\<close>\<close>
  "cell_str c = (case c of CNull \<Rightarrow> [] | CText s \<Rightarrow> s)"

definition extract_title_from_link :: "cell \<Rightarrow> string" where
  \<comment> \<open>the body after the type check is that of \<open>extract_title_from_url\<close>\<close>
  "extract_title_from_link job_link =
     (case job_link of CNull \<Rightarrow> [] | CText s \<Rightarrow> extract_title_from_url s)"

definition process_row ::
  "(real \<Rightarrow> bool) \<Rightarrow> framework \<Rightarrow> combinations \<Rightarrow> bool \<Rightarrow> cell list \<Rightarrow> error + out_row" where
  \<comment> \<open>the body of the loop of \<open>process_batch\<close>; unpacking a row of the wrong length raises\<close>
  "process_row tie_up RIASEC_TYPES COMBINATIONS has_title row =
     (case (if has_title
            then (case row of
                    [job_link, job_skills, job_title] \<Rightarrow> Inr (job_link, job_skills, cell_str job_title)
                  | _ \<Rightarrow> Inl ValueError)
            else (case row of
                    [job_link, job_skills] \<Rightarrow>
                      Inr (job_link, job_skills, extract_title_from_link job_link)
                  | _ \<Rightarrow> Inl ValueError)) of
        Inl e \<Rightarrow> Inl e
      | Inr (job_link, job_skills, title) \<Rightarrow>
          (case classify_job tie_up RIASEC_TYPES COMBINATIONS (cell_str job_skills) title
                  (cell_str job_link) of
             Inl e \<Rightarrow> Inl e
           | Inr classification \<Rightarrow>
               Inr [(''job_link'', OCell job_link),
                    (''job_skills'', OCell job_skills),
                    (''extracted_title'', OText title),
                    (''riasec_code'', OText (riasec_code classification)),
                    (''riasec_confidence'', ONumber (confidence classification)),
                    (''primary_riasec_type'', OText (primary_type classification)),
                    (''riasec_total_score'', ONumber (total_score classification))]))"

fun process_batch ::
  "(real \<Rightarrow> bool) \<Rightarrow> framework \<Rightarrow> combinations \<Rightarrow> cell list list \<Rightarrow> bool
     \<Rightarrow> error + out_row list" where
  "process_batch tie_up RIASEC_TYPES COMBINATIONS [] has_title = Inr []"
| "process_batch tie_up RIASEC_TYPES COMBINATIONS (row # batch_data) has_title =
     (case process_row tie_up RIASEC_TYPES COMBINATIONS has_title row of
        Inl e \<Rightarrow> Inl e
      | Inr result \<Rightarrow>
          (case process_batch tie_up RIASEC_TYPES COMBINATIONS batch_data has_title of
             Inl e \<Rightarrow> Inl e
           | Inr results \<Rightarrow> Inr (result # results)))"

text \<open>
  The \<open>while processed < total_rows\<close> loop. It need not end: when a query fetches nothing, as
  with a batch size of 0, \<open>processed\<close> stays as it is. \<open>None\<close> is the run that does not return.
  The elapsed time, the rate and the ETA are printed and nothing else reads them; they are
  not part of the state.
\<close>

partial_function (option) batch_loop ::
  "(real \<Rightarrow> bool) \<Rightarrow> framework \<Rightarrow> combinations \<Rightarrow> string \<Rightarrow> string list \<Rightarrow> bool \<Rightarrow> nat
     \<Rightarrow> nat \<Rightarrow> nat \<Rightarrow> out_row list \<Rightarrow> world \<Rightarrow> ((error + out_row list) \<times> world) option" where
  "batch_loop tie_up RIASEC_TYPES COMBINATIONS input_path select_cols has_title batch_size
       total_rows processed all_results w =
     (if processed < total_rows then
        (case select_query w input_path (comma_join select_cols)
                (min batch_size (total_rows - processed)) processed of
           Inl e \<Rightarrow> Some (Inl e, w)
         | Inr batch_data \<Rightarrow>
             (case process_batch tie_up RIASEC_TYPES COMBINATIONS batch_data has_title of
                Inl e \<Rightarrow>
                  Some (Inl e,
                    w\<lparr>effects := effects w
                        @ [BatchQuery input_path (min batch_size (total_rows - processed)) processed]\<rparr>)
              | Inr batch_results \<Rightarrow>
                  batch_loop tie_up RIASEC_TYPES COMBINATIONS input_path select_cols has_title
                    batch_size total_rows (processed + length batch_data)
                    (all_results @ batch_results)
                    (w\<lparr>effects := effects w
                        @ [BatchQuery input_path (min batch_size (total_rows - processed)) processed]\<rparr>)))
      else Some (Inr all_results, w))"

declare batch_loop.simps [code]

definition output_format :: "string \<Rightarrow> file_format" where
  \<comment> \<open>\<open>output_path.endswith('.parquet')\<close>\<close>
  "output_format output_path = (if suffix ''.parquet'' output_path then Parquet else Csv)"

definition process_csv_file ::
  "(real \<Rightarrow> bool) \<Rightarrow> framework \<Rightarrow> combinations \<Rightarrow> string \<Rightarrow> string \<Rightarrow> string \<Rightarrow> string
     \<Rightarrow> string option \<Rightarrow> nat \<Rightarrow> nat option \<Rightarrow> world
     \<Rightarrow> ((error + out_row list) \<times> world) option" where
  \<comment> \<open>\<open>if sample_size:\<close> takes 0 as no sample. \<open>if title_col:\<close> selects the title column when
      its name is given and not empty, while \<open>has_title\<close> is \<open>title_col is not None\<close>. After
      the loop the data frame is saved, and then the statistics read its column
      \<open>riasec_code\<close>, which a data frame made from no rows does not have.\<close>
  "process_csv_file tie_up RIASEC_TYPES COMBINATIONS input_path output_path skills_col link_col
       title_col batch_size sample_size w =
     (case count_query w input_path of
        Inl e \<Rightarrow> Some (Inl e, w)
      | Inr n \<Rightarrow>
          (let total_rows = (case sample_size of
                               None \<Rightarrow> n
                             | Some s \<Rightarrow> if s \<noteq> 0 then min n s else n);
               select_cols = [link_col, skills_col]
                 @ (case title_col of None \<Rightarrow> [] | Some c \<Rightarrow> if c \<noteq> [] then [c] else [])
           in case batch_loop tie_up RIASEC_TYPES COMBINATIONS input_path select_cols
                     (title_col \<noteq> None) batch_size total_rows 0 [] w of
                None \<Rightarrow> None
              | Some (Inl e, w1) \<Rightarrow> Some (Inl e, w1)
              | Some (Inr all_results, w1) \<Rightarrow>
                  if \<not> writable w1 output_path then Some (Inl (IOError output_path), w1)
                  else (let w2 = w1\<lparr>effects := effects w1
                                    @ [Write output_path (output_format output_path) all_results]\<rparr>
                        in if all_results = [] then Some (Inl (KeyError ''riasec_code''), w2)
                           else Some (Inr all_results, w2))))"

section \<open>Notions of the proofs\<close>

definition score_state_ok :: "score_dict \<times> match_dict \<Rightarrow> bool" where
  \<comment> \<open>both dicts keep the six letters as keys, in the order of their creation, and no score
      is negative\<close>
  "score_state_ok st \<longleftrightarrow>
     map fst (fst st) = riasec_letters \<and> map fst (snd st) = riasec_letters
     \<and> list_all (\<lambda>x. 0 \<le> snd x) (fst st)"

definition trace_of :: "string \<Rightarrow> score_dict \<times> match_dict \<Rightarrow> string list" where
  \<comment> \<open>the trace entries recorded for a letter, none when the letter is no key\<close>
  "trace_of letter st = (case map_of (snd st) letter of None \<Rightarrow> [] | Some es \<Rightarrow> es)"

definition is_batch_query :: "event \<Rightarrow> bool" where
  "is_batch_query e = (case e of BatchQuery p l k \<Rightarrow> True | Write p f d \<Rightarrow> False)"

section \<open>A framework file\<close>

definition example_types :: framework where
  \<comment> \<open>the \<open>riasec_types\<close> of a small framework file, the concrete input of the examples\<close>
  "example_types =
     [(''E'', \<lparr> type_name = Some ''Enterprising'', strong = [''sales'', ''Marketing''],
               moderate = [''strategic'', ''sales''], type_keywords = [''deal''] \<rparr>),
      (''A'', \<lparr> type_name = Some ''Artistic'', strong = [''graphic design''],
               moderate = [''artistic'', ''art''], type_keywords = [] \<rparr>)]"

definition ties_to_even :: "real \<Rightarrow> bool" where
  \<comment> \<open>a tie rule for the examples: halfway between two integers, the even one is taken\<close>
  "ties_to_even y \<longleftrightarrow> odd \<lfloor>y\<rfloor>"

section \<open>A source file\<close>

record table =
  tbl_columns :: "string list"
  tbl_rows :: "cell list list"

definition example_table :: table where
  \<comment> \<open>the content of the file \<open>jobs.csv\<close>: two rows, and a column \<open>company\<close> besides the
      link and the skills\<close>
  "example_table =
     \<lparr> tbl_columns = [''job_link'', ''job_skills'', ''company''],
       tbl_rows =
         [[CText ''https://www.linkedin.com/jobs/view/sales-manager-at-acme-123'',
           CText ''Sales, Marketing'', CText ''Acme''],
          [CNull, CText ''graphic design'', CText ''Studio'']] \<rparr>"

definition example_world :: world where
  \<comment> \<open>the answers of the engine where \<open>jobs.csv\<close> is the file above and \<open>empty.csv\<close> has the
      header \<open>job_link,job_skills\<close> and no row: the count of rows, and for the selection of
      \<open>job_link, job_skills\<close> the first two cells of the rows from the offset on, up to the
      limit. There is no other file, every path can be written and nothing has happened
      yet.\<close>
  "example_world =
     \<lparr> count_query =
         (\<lambda>p. if p = ''jobs.csv'' then Inr (length (tbl_rows example_table))
              else if p = ''empty.csv'' then Inr 0
              else Inl (IOError p)),
       select_query =
         (\<lambda>p names limit processed.
            if p = ''jobs.csv'' \<and> names = ''job_link, job_skills''
            then Inr (take limit (drop processed (map (take 2) (tbl_rows example_table))))
            else if p = ''empty.csv'' \<and> names = ''job_link, job_skills'' then Inr []
            else Inl (IOError p)),
       writable = (\<lambda>p. True),
       effects = [] \<rparr>"

section \<open>Properties of the text normalizer\<close>

lemma is_space_blank: "is_space (CHR '' '')"
  by (simp add: is_space_def)

lemma lower_char_idem: "lower_char (lower_char c) = lower_char c"
  by (auto simp: lower_char_def is_upper_def)

lemma lower_char_blank: "lower_char (CHR '' '') = CHR '' ''"
  by (simp add: lower_char_def is_upper_def)

lemma not_separator_blank: "\<not> is_separator (CHR '' '')"
  by (simp add: is_separator_def)

lemma lower_idem: "lower (lower s) = lower s"
  by (simp add: lower_def lower_char_idem)

lemma lower_append: "lower (a @ b) = lower a @ lower b"
  by (simp add: lower_def)

lemma spaced_tl: "spaced (c # cs) \<Longrightarrow> spaced cs"
  by (cases cs) auto

lemma spaced_drop: "spaced s \<Longrightarrow> spaced (drop n s)"
proof (induction n arbitrary: s)
  case 0 then show ?case by simp
next
  case (Suc n)
  then show ?case by (cases s) (auto dest: spaced_tl)
qed

lemma spaced_take: "spaced s \<Longrightarrow> spaced (take n s)"
proof (induction s arbitrary: n rule: spaced.induct)
  case 1 then show ?case by simp
next
  case (2 c) then show ?case by (cases n) auto
next
  case (3 c d cs)
  show ?case
  proof (cases n)
    case 0 then show ?thesis by simp
  next
    case (Suc m)
    have "spaced (take m (d # cs))" using 3 by simp
    then show ?thesis using 3(2) Suc by (cases m) auto
  qed
qed

lemma collapse_ws_head: "collapse_ws s = c # r \<Longrightarrow> is_space c \<Longrightarrow> c = CHR '' ''"
  by (cases s) (auto split: if_splits)

lemma spaced_collapse_ws: "spaced (collapse_ws s)"
proof (induction s rule: collapse_ws.induct)
  case 1 then show ?case by simp
next
  case (2 c cs)
  show ?case
  proof (cases "is_space c")
    case True
    let ?r = "dropWhile is_space cs"
    have ih: "spaced (collapse_ws ?r)" using 2 True by simp
    have hd: "collapse_ws ?r = [] \<or> (\<exists>d t. collapse_ws ?r = d # t \<and> \<not> is_space d)"
    proof (cases ?r)
      case Nil then show ?thesis by (simp del: dropWhile_eq_Nil_conv)
    next
      case (Cons d t)
      then have "\<not> is_space d" by (metis hd_dropWhile list.sel(1) list.distinct(1))
      then show ?thesis using Cons by simp
    qed
    then show ?thesis using ih True by auto
  next
    case False
    have ih: "spaced (collapse_ws cs)" using 2 False by simp
    then show ?thesis using False by (cases "collapse_ws cs") auto
  qed
qed

lemma collapse_ws_spaced: "spaced s \<Longrightarrow> collapse_ws s = s"
proof (induction s rule: spaced.induct)
  case 1 then show ?case by simp
next
  case (2 c) then show ?case by auto
next
  case (3 c d cs)
  then show ?case by auto
qed

lemma strip_sub: "strip s = take (length (dropWhile is_space s) - length (takeWhile is_space (rev (dropWhile is_space s)))) (drop (length (takeWhile is_space s)) s)"
proof -
  let ?a = "dropWhile is_space s"
  have "rev (dropWhile is_space (rev ?a)) = rev (drop (length (takeWhile is_space (rev ?a))) (rev ?a))"
    using dropWhile_eq_drop [of is_space "rev ?a"] by simp
  also have "\<dots> = take (length ?a - length (takeWhile is_space (rev ?a))) ?a"
    by (simp add: rev_drop)
  finally show ?thesis
    using dropWhile_eq_drop [of is_space s] by (simp add: strip_def)
qed

lemma spaced_strip: "spaced s \<Longrightarrow> spaced (strip s)"
  by (subst strip_sub) (intro spaced_take spaced_drop)

lemma strip_idem: "strip (strip s) = strip s"
proof -
  let ?a = "dropWhile is_space s"
  let ?b = "rev (dropWhile is_space (rev ?a))"
  have b: "strip s = ?b" by (simp add: strip_def)
  have "dropWhile is_space ?b = ?b"
  proof (cases ?b)
    case Nil then show ?thesis by (simp del: dropWhile_eq_Nil_conv rev_is_Nil_conv)
  next
    case (Cons x xs)
    have "?a = ?b @ rev (takeWhile is_space (rev ?a))"
      by (metis rev_append rev_rev_ident takeWhile_dropWhile_id)
    then have "hd ?a = x" using Cons by (metis hd_append2 list.distinct(1) list.sel(1))
    moreover have "?a \<noteq> []"
    proof
      assume "?a = []"
      then have "?b = []" by (simp del: dropWhile_eq_Nil_conv)
      then show False using Cons by simp
    qed
    ultimately have "\<not> is_space x" by (metis hd_dropWhile)
    then show ?thesis using Cons by simp
  qed
  then show ?thesis by (simp add: strip_def)
qed

lemma canonical_blank: "canonical_char (CHR '' '')"
  by (simp add: canonical_char_def lower_char_blank not_separator_blank)

lemma canonical_sub_lower: "list_all canonical_char (sub_separators (lower t))"
  by (induction t)
     (auto simp: sub_separators_def lower_def canonical_char_def lower_char_idem
        lower_char_blank not_separator_blank)

lemma canonical_collapse_ws: "list_all canonical_char s \<Longrightarrow> list_all canonical_char (collapse_ws s)"
proof (induction s rule: collapse_ws.induct)
  case 1 then show ?case by simp
next
  case (2 c cs)
  have "list_all canonical_char (dropWhile is_space cs)"
    using 2(3) by (auto simp: list_all_iff dest: set_dropWhileD)
  then show ?case using 2 by (auto simp: canonical_blank)
qed

lemma canonical_strip: "list_all canonical_char s \<Longrightarrow> list_all canonical_char (strip s)"
  by (auto simp: strip_def list_all_iff dest!: set_dropWhileD)

lemma canonical_fixed:
  assumes "list_all canonical_char s"
  shows "sub_separators (lower s) = s"
  using assms by (induction s) (auto simp: sub_separators_def lower_def canonical_char_def)

lemma normalize_text_shape:
  "list_all canonical_char (normalize_text t) \<and> spaced (normalize_text t)
     \<and> strip (normalize_text t) = normalize_text t"
proof (cases "t = []")
  case True
  then show ?thesis by (simp add: normalize_text_def strip_def)
next
  case False
  then have n: "normalize_text t = strip (collapse_ws (sub_separators (lower t)))"
    by (simp add: normalize_text_def)
  show ?thesis
    unfolding n
    by (intro conjI canonical_strip canonical_collapse_ws canonical_sub_lower
        spaced_strip spaced_collapse_ws strip_idem)
qed

lemma not_upper_lower_fixed: "lower_char c = c \<Longrightarrow> \<not> is_upper c"
proof
  assume a: "lower_char c = c" and u: "is_upper c"
  then have "char_of ((of_char c :: nat) + 32) = c" by (simp add: lower_char_def)
  then have "(of_char (char_of ((of_char c :: nat) + 32)) :: nat) = of_char c" by simp
  then have "((of_char c :: nat) + 32) mod 256 = of_char c" by simp
  then show False using u by (simp add: is_upper_def)
qed

lemma canonical_not_upper:
  assumes "list_all canonical_char s"
  shows "list_all (\<lambda>c. \<not> is_upper c \<and> \<not> is_separator c) s"
  using assms by (auto simp: list_all_iff canonical_char_def dest: not_upper_lower_fixed)

lemma normalize_text_fixed: "normalize_text (normalize_text t) = normalize_text t"
proof -
  let ?n = "normalize_text t"
  have c: "sub_separators (lower ?n) = ?n"
    using normalize_text_shape canonical_fixed by blast
  have s: "collapse_ws ?n = ?n"
    using normalize_text_shape collapse_ws_spaced by blast
  have t: "strip ?n = ?n"
    using normalize_text_shape by blast
  show ?thesis
  proof (cases "?n = []")
    case True
    then show ?thesis by (simp add: normalize_text_def)
  next
    case False
    have "normalize_text ?n = strip (collapse_ws (sub_separators (lower ?n)))"
      using False by (subst normalize_text_def) simp
    then show ?thesis by (simp only: c s t)
  qed
qed

text \<open>
  Claim C10. Text normalization is idempotent: normalizing a normalized text changes
  nothing. The reason is the shape of a normalized text: it holds no upper-case letter and
  no separator, collapsing its whitespace changes nothing (every run of whitespace is one
  space) and so does stripping it (it neither starts nor ends with whitespace).
\<close>

theorem normalize_text_idempotent:
  "normalize_text (normalize_text t) = normalize_text t
   \<and> list_all (\<lambda>c. \<not> is_upper c \<and> \<not> is_separator c) (normalize_text t)
   \<and> collapse_ws (normalize_text t) = normalize_text t
   \<and> strip (normalize_text t) = normalize_text t"
  using normalize_text_fixed [of t] normalize_text_shape [of t]
    canonical_not_upper [of "normalize_text t"] collapse_ws_spaced [of "normalize_text t"]
  by blast

section \<open>Properties of the scoring loops\<close>

lemma update_present_keys: "map_of al k = Some v \<Longrightarrow> map fst (AList.update k x al) = map fst al"
  by (simp add: update_keys map_of_eq_Some_iff weak_map_of_SomeI domI dom_map_of_conv_image_fst [symmetric])

lemma add_score_Some:
  "map_of sc letter = Some v \<Longrightarrow> add_score letter w sc = Inr (AList.update letter (v + w) sc)"
  by (simp add: add_score_def)

lemma append_match_Some:
  "map_of m letter = Some es \<Longrightarrow> append_match letter e m = Inr (AList.update letter (es @ [e]) m)"
  by (simp add: append_match_def)

lemma record_match_Some:
  "map_of (fst st) letter = Some v \<Longrightarrow> map_of (snd st) letter = Some es \<Longrightarrow>
   record_match letter w e st
     = Inr (AList.update letter (v + w) (fst st), AList.update letter (es @ [e]) (snd st))"
  by (simp add: record_match_def add_score_Some append_match_Some)

lemma nonneg_update:
  "list_all (\<lambda>x. 0 \<le> snd x) sc \<Longrightarrow> (0::real) \<le> x \<Longrightarrow> list_all (\<lambda>x. 0 \<le> snd x) (AList.update k x sc)"
  by (induction sc) auto

lemma nonneg_lookup:
  "list_all (\<lambda>x. 0 \<le> snd x) sc \<Longrightarrow> map_of sc k = Some v \<Longrightarrow> (0::real) \<le> v"
  by (induction sc) (auto split: if_splits)

lemma add_score_ok:
  assumes "add_score letter w sc = Inr sc'" and "0 \<le> w"
    and "map fst sc = ks" and "list_all (\<lambda>x. 0 \<le> snd x) sc"
  shows "map fst sc' = ks \<and> list_all (\<lambda>x. 0 \<le> snd x) sc'"
proof -
  obtain v where v: "map_of sc letter = Some v" and sc': "sc' = AList.update letter (v + w) sc"
    using assms(1) by (auto simp: add_score_def split: option.splits)
  have "0 \<le> v + w" using nonneg_lookup [OF assms(4) v] assms(2) by simp
  then show ?thesis
    using v sc' assms(3,4) by (simp add: update_present_keys nonneg_update)
qed

lemma append_match_ok:
  assumes "append_match letter e m = Inr m'" and "map fst m = ks"
  shows "map fst m' = ks"
  using assms by (auto simp: append_match_def update_present_keys split: option.splits)

lemma record_match_ok:
  assumes "record_match letter w e st = Inr st'" and "0 \<le> w" and "score_state_ok st"
  shows "score_state_ok st'"
proof -
  obtain sc m where sc: "add_score letter w (fst st) = Inr sc"
    and m: "append_match letter e (snd st) = Inr m" and st': "st' = (sc, m)"
    using assms(1) by (auto simp: record_match_def split: sum.splits)
  show ?thesis
    using add_score_ok [OF sc assms(2)] append_match_ok [OF m] assms(3) st'
    by (simp add: score_state_ok_def)
qed

lemma strong_step_ok:
  assumes "strong_step c t letter skill st = Inr st'" and "score_state_ok st"
  shows "score_state_ok st'"
proof (cases "sublist (lower skill) c")
  case False
  then show ?thesis using assms by (simp add: strong_step_def)
next
  case True
  then obtain st1 where r: "record_match letter STRONG_INDICATOR_WEIGHT (skill @ ''(+3.0)'') st = Inr st1"
    using assms(1) by (auto simp: strong_step_def Let_def split: sum.splits)
  have ok1: "score_state_ok st1"
    using record_match_ok [OF r _ assms(2)] by (simp add: STRONG_INDICATOR_WEIGHT_def)
  show ?thesis
  proof (cases "sublist (lower skill) t")
    case False
    then show ?thesis using assms(1) True r ok1 by (simp add: strong_step_def)
  next
    case t: True
    then obtain sc where a: "add_score letter TITLE_BONUS_WEIGHT (fst st1) = Inr sc"
      and st': "st' = (sc, snd st1)"
      using assms(1) True r by (auto simp: strong_step_def split: sum.splits)
    show ?thesis
      using add_score_ok [OF a] ok1 st'
      by (simp add: score_state_ok_def TITLE_BONUS_WEIGHT_def)
  qed
qed

lemma moderate_step_ok:
  assumes "moderate_step c letter skill st = Inr st'" and "score_state_ok st"
  shows "score_state_ok st'"
  using assms record_match_ok [of letter MODERATE_INDICATOR_WEIGHT "skill @ ''(+1.5)''" st st']
  by (auto simp: moderate_step_def Let_def MODERATE_INDICATOR_WEIGHT_def
      split: if_splits option.splits)

lemma keyword_step_ok:
  assumes "keyword_step c td letter kw st = Inr st'" and "score_state_ok st"
  shows "score_state_ok st'"
  using assms record_match_ok [of letter KEYWORD_WEIGHT "kw @ ''(+1.0)''" st st']
  by (auto simp: keyword_step_def Let_def KEYWORD_WEIGHT_def split: if_splits)

lemma for_each_invariant:
  assumes "for_each body xs s = Inr s'" and "I s"
    and "\<And>x a b. x \<in> set xs \<Longrightarrow> I a \<Longrightarrow> body x a = Inr b \<Longrightarrow> I b"
  shows "I s'"
  using assms
proof (induction xs arbitrary: s)
  case Nil
  then show ?case by simp
next
  case (Cons x xs)
  then obtain s1 where s1: "body x s = Inr s1" and r: "for_each body xs s1 = Inr s'"
    by (auto split: sum.splits)
  have i1: "I s1" using Cons.prems(3) [of x s s1] Cons.prems(2) s1 by simp
  show ?case
  proof (rule Cons.IH [OF r i1])
    fix y a b
    assume "y \<in> set xs" "I a" "body y a = Inr b"
    then show "I b" using Cons.prems(3) [of y a b] by simp
  qed
qed

lemma for_each_total:
  assumes "I s" and "\<And>x a. x \<in> set xs \<Longrightarrow> I a \<Longrightarrow> \<exists>b. body x a = Inr b \<and> I b"
  shows "\<exists>s'. for_each body xs s = Inr s' \<and> I s'"
  using assms
proof (induction xs arbitrary: s)
  case Nil
  then show ?case by simp
next
  case (Cons x xs)
  obtain s1 where s1: "body x s = Inr s1" and i1: "I s1"
    using Cons.prems(2) [of x s] Cons.prems(1) by auto
  have "\<exists>s'. for_each body xs s1 = Inr s' \<and> I s'"
  proof (rule Cons.IH [OF i1])
    fix y a
    assume "y \<in> set xs" "I a"
    then show "\<exists>b. body y a = Inr b \<and> I b" using Cons.prems(2) [of y a] by simp
  qed
  then show ?case using s1 by simp
qed

lemma score_type_ok:
  assumes "score_type c t item st = Inr st'" and "score_state_ok st"
  shows "score_state_ok st'"
proof -
  obtain st1 st2 where
    a: "for_each (strong_step c t (fst item)) (strong (snd item)) st = Inr st1" and
    b: "for_each (moderate_step c (fst item)) (moderate (snd item)) st1 = Inr st2" and
    d: "for_each (keyword_step c (snd item) (fst item)) (type_keywords (snd item)) st2 = Inr st'"
    using assms(1) by (auto simp: score_type_def split: sum.splits)
  have "score_state_ok st1"
    by (rule for_each_invariant [where I = score_state_ok, OF a assms(2)]) (rule strong_step_ok)
  then have "score_state_ok st2"
    by (rule for_each_invariant [where I = score_state_ok, OF b]) (rule moderate_step_ok)
  then show ?thesis
    by (rule for_each_invariant [where I = score_state_ok, OF d]) (rule keyword_step_ok)
qed

lemma initial_state_ok:
  "score_state_ok (map (\<lambda>letter. (letter, 0)) riasec_letters, map (\<lambda>letter. (letter, [])) riasec_letters)"
  by (simp add: score_state_ok_def riasec_letters_def)

lemma calculate_riasec_scores_ok:
  assumes "calculate_riasec_scores fw skills title = Inr st"
  shows "score_state_ok st"
proof -
  have r: "for_each (score_type (normalize_text (title @ '' '' @ skills)) (normalize_text title)) fw
          (map (\<lambda>letter. (letter, 0)) riasec_letters, map (\<lambda>letter. (letter, [])) riasec_letters) = Inr st"
    using assms by (simp add: calculate_riasec_scores_def)
  show ?thesis
    by (rule for_each_invariant [where I = score_state_ok, OF r initial_state_ok])
      (rule score_type_ok)
qed

lemma key_lookup: "k \<in> set (map fst al) \<Longrightarrow> \<exists>v. map_of al k = Some v"
  by (induction al) auto

lemma state_lookup:
  assumes "score_state_ok st" and "letter \<in> set riasec_letters"
  shows "\<exists>v. map_of (fst st) letter = Some v" and "\<exists>es. map_of (snd st) letter = Some es"
proof -
  have a: "letter \<in> set (map fst (fst st))" and b: "letter \<in> set (map fst (snd st))"
    using assms unfolding score_state_ok_def by metis+
  show "\<exists>v. map_of (fst st) letter = Some v" by (rule key_lookup [OF a])
  show "\<exists>es. map_of (snd st) letter = Some es" by (rule key_lookup [OF b])
qed

lemma record_match_total:
  assumes "score_state_ok st" and "letter \<in> set riasec_letters"
  shows "\<exists>st'. record_match letter w e st = Inr st'"
proof -
  obtain v where v: "map_of (fst st) letter = Some v"
    using state_lookup(1) [OF assms] by blast
  obtain es where es: "map_of (snd st) letter = Some es"
    using state_lookup(2) [OF assms] by blast
  show ?thesis using record_match_Some [OF v es] by simp
qed

lemma add_score_total:
  assumes "score_state_ok st" and "letter \<in> set riasec_letters"
  shows "\<exists>sc. add_score letter w (fst st) = Inr sc"
proof -
  obtain v where v: "map_of (fst st) letter = Some v"
    using state_lookup(1) [OF assms] by blast
  show ?thesis using add_score_Some [OF v] by simp
qed

lemma strong_step_total:
  assumes "score_state_ok st" and "letter \<in> set riasec_letters"
  shows "\<exists>st'. strong_step c t letter skill st = Inr st' \<and> score_state_ok st'"
proof -
  obtain st1 where r: "record_match letter STRONG_INDICATOR_WEIGHT (skill @ ''(+3.0)'') st = Inr st1"
    using record_match_total [OF assms] by blast
  have ok1: "score_state_ok st1"
    using record_match_ok [OF r _ assms(1)] by (simp add: STRONG_INDICATOR_WEIGHT_def)
  obtain sc where a: "add_score letter TITLE_BONUS_WEIGHT (fst st1) = Inr sc"
    using add_score_total [OF ok1 assms(2)] by blast
  have "\<exists>st'. strong_step c t letter skill st = Inr st'"
    using r a by (simp add: strong_step_def Let_def)
  then show ?thesis using strong_step_ok [OF _ assms(1)] by blast
qed

lemma moderate_step_total:
  assumes "score_state_ok st" and "letter \<in> set riasec_letters"
  shows "\<exists>st'. moderate_step c letter skill st = Inr st' \<and> score_state_ok st'"
proof -
  obtain es where es: "map_of (snd st) letter = Some es"
    using state_lookup(2) [OF assms] by blast
  obtain st1 where r: "record_match letter MODERATE_INDICATOR_WEIGHT (skill @ ''(+1.5)'') st = Inr st1"
    using record_match_total [OF assms] by blast
  have "\<exists>st'. moderate_step c letter skill st = Inr st'"
    using r es by (simp add: moderate_step_def Let_def)
  then show ?thesis using moderate_step_ok [OF _ assms(1)] by blast
qed

lemma keyword_step_total:
  assumes "score_state_ok st" and "letter \<in> set riasec_letters"
  shows "\<exists>st'. keyword_step c td letter kw st = Inr st' \<and> score_state_ok st'"
proof -
  obtain st1 where r: "record_match letter KEYWORD_WEIGHT (kw @ ''(+1.0)'') st = Inr st1"
    using record_match_total [OF assms] by blast
  have "\<exists>st'. keyword_step c td letter kw st = Inr st'"
    using r by (simp add: keyword_step_def Let_def)
  then show ?thesis using keyword_step_ok [OF _ assms(1)] by blast
qed

lemma score_type_total:
  assumes "score_state_ok st" and "fst item \<in> set riasec_letters"
  shows "\<exists>st'. score_type c t item st = Inr st' \<and> score_state_ok st'"
proof -
  obtain st1 where a: "for_each (strong_step c t (fst item)) (strong (snd item)) st = Inr st1"
    and ok1: "score_state_ok st1"
    using for_each_total [where I = score_state_ok, OF assms(1)]
      strong_step_total [OF _ assms(2)] by meson
  obtain st2 where b: "for_each (moderate_step c (fst item)) (moderate (snd item)) st1 = Inr st2"
    and ok2: "score_state_ok st2"
    using for_each_total [where I = score_state_ok, OF ok1]
      moderate_step_total [OF _ assms(2)] by meson
  obtain st3 where d: "for_each (keyword_step c (snd item) (fst item)) (type_keywords (snd item)) st2 = Inr st3"
    and ok3: "score_state_ok st3"
    using for_each_total [where I = score_state_ok, OF ok2]
      keyword_step_total [OF _ assms(2)] by meson
  show ?thesis using a b d ok3 by (simp add: score_type_def)
qed

lemma calculate_riasec_scores_total:
  assumes "set (map fst fw) \<subseteq> set riasec_letters"
  shows "\<exists>st. calculate_riasec_scores fw skills title = Inr st \<and> score_state_ok st"
proof -
  have "\<exists>st. for_each (score_type (normalize_text (title @ '' '' @ skills)) (normalize_text title)) fw
          (map (\<lambda>letter. (letter, 0)) riasec_letters, map (\<lambda>letter. (letter, [])) riasec_letters) = Inr st
        \<and> score_state_ok st"
  proof (rule for_each_total [where I = score_state_ok, OF initial_state_ok])
    fix x a
    assume "x \<in> set fw" "score_state_ok a"
    then show "\<exists>b. score_type (normalize_text (title @ '' '' @ skills)) (normalize_text title) x a = Inr b
                 \<and> score_state_ok b"
      using score_type_total [of a x] assms by auto
  qed
  then show ?thesis by (simp add: calculate_riasec_scores_def)
qed

section \<open>Properties of the code determination\<close>

lemma top_3_foldl:
  "foldl (\<lambda>acc x. if P x \<and> length acc < n then acc @ [f x] else acc) acc xs
     = acc @ take (n - length acc) (map f (filter P xs))"
proof (induction xs arbitrary: acc)
  case Nil
  then show ?case by simp
next
  case (Cons x xs)
  show ?case
  proof (cases "P x \<and> length acc < n")
    case True
    have "n - length acc = Suc (n - Suc (length acc))" using True by arith
    then show ?thesis using True Cons.IH [of "acc @ [f x]"] by simp
  next
    case False
    then show ?thesis using Cons.IH [of acc] by auto
  qed
qed

lemma filter_complement_length:
  assumes "distinct (map f xs)"
  shows "length xs \<le> length (filter (\<lambda>x. f x \<notin> set T) xs) + length T"
proof -
  have "length (filter (\<lambda>x. f x \<in> set T) xs) = length (filter (\<lambda>y. y \<in> set T) (map f xs))"
    by (simp add: filter_map comp_def)
  also have "\<dots> = card (set (filter (\<lambda>y. y \<in> set T) (map f xs)))"
    by (rule distinct_card [symmetric]) (rule distinct_filter [OF assms])
  also have "\<dots> \<le> card (set T)"
    by (rule card_mono) auto
  also have "\<dots> \<le> length T" by (rule card_length)
  finally have "length (filter (\<lambda>x. f x \<in> set T) xs) \<le> length T" .
  moreover have "length xs = length (filter (\<lambda>x. f x \<in> set T) xs) + length (filter (\<lambda>x. f x \<notin> set T) xs)"
    using sum_length_filter_compl [of "\<lambda>x. f x \<in> set T" xs] by simp
  ultimately show ?thesis by simp
qed

lemma sorted_scores_mset: "mset (sorted_scores sc) = mset sc"
  by (simp add: sorted_scores_def)

lemma sorted_scores_keys:
  "set (map fst (sorted_scores sc)) = set (map fst sc)"
  "distinct (map fst (sorted_scores sc)) = distinct (map fst sc)"
  "length (sorted_scores sc) = length sc"
proof -
  have "mset (map fst (sorted_scores sc)) = mset (map fst sc)"
    using sorted_scores_mset [of sc] by (metis mset_map)
  then show "set (map fst (sorted_scores sc)) = set (map fst sc)"
    and "distinct (map fst (sorted_scores sc)) = distinct (map fst sc)"
    by (metis set_mset_mset, metis mset_eq_imp_distinct_iff)
  show "length (sorted_scores sc) = length sc" by (simp add: sorted_scores_def)
qed

lemma determine_riasec_code_unfold:
  "determine_riasec_code sc =
     (let s = sorted_scores sc; t = take 3 (map fst (filter (\<lambda>x. snd x > 0) s))
      in concat (take 3 (if length t < 3
                         then t @ take (3 - length t) (map fst (filter (\<lambda>x. fst x \<notin> set t) s))
                         else t)))"
proof -
  have t: "foldl (\<lambda>acc x. if snd x > 0 \<and> length acc < 3 then acc @ [fst x] else acc) []
             (sorted_scores sc) = take 3 (map fst (filter (\<lambda>x. snd x > 0) (sorted_scores sc)))"
    using top_3_foldl [of "\<lambda>x. snd x > 0" 3 fst "[]" "sorted_scores sc"] by simp
  show ?thesis
    unfolding determine_riasec_code_def t Let_def by (rule refl)
qed

lemma determine_riasec_code_parts:
  assumes "distinct (map fst sc)" and "3 \<le> length sc"
  shows "\<exists>a b c. {a, b, c} \<subseteq> set (map fst sc) \<and> determine_riasec_code sc = a @ b @ c"
proof -
  define s where "s = sorted_scores sc"
  define t where "t = take 3 (map fst (filter (\<lambda>x. snd x > 0) s))"
  define r where "r = take (3 - length t) (map fst (filter (\<lambda>x. fst x \<notin> set t) s))"
  define L where "L = (if length t < 3 then t @ r else t)"
  have code: "determine_riasec_code sc = concat (take 3 L)"
    by (simp add: determine_riasec_code_unfold s_def t_def r_def L_def Let_def)
  have keys: "set (map fst s) = set (map fst sc)" "distinct (map fst s)" "length s = length sc"
    using assms(1) by (simp_all only: s_def sorted_scores_keys)
  have le: "length t \<le> 3" by (simp add: t_def)
  have "length s \<le> length (filter (\<lambda>x. fst x \<notin> set t) s) + length t"
    by (rule filter_complement_length) (rule keys(2))
  then have "3 - length t \<le> length (map fst (filter (\<lambda>x. fst x \<notin> set t) s))"
    using assms(2) keys(3) by simp
  then have lr: "length r = 3 - length t"
    unfolding r_def by (simp only: length_take min_absorb2)
  have len: "length L = 3" using le lr by (simp add: L_def)
  have "set t \<subseteq> set (map fst s)"
    unfolding t_def by (auto dest!: in_set_takeD)
  moreover have "set r \<subseteq> set (map fst s)"
    unfolding r_def by (auto dest!: in_set_takeD)
  ultimately have sub: "set L \<subseteq> set (map fst sc)"
    unfolding keys(1) [symmetric] L_def by auto
  obtain a b c where L: "L = [a, b, c]"
    using len by (auto simp: length_Suc_conv numeral_3_eq_3)
  show ?thesis using sub code unfolding L by auto
qed

lemma riasec_letter_shape:
  "x \<in> set riasec_letters \<Longrightarrow> length x = 1 \<and> set x \<subseteq> set ''RIASEC''"
  by (auto simp: riasec_letters_def)

lemma classify_job_returns_code:
  assumes "set (map fst RIASEC_TYPES) \<subseteq> set riasec_letters"
  shows "\<exists>r. classify_job tie_up RIASEC_TYPES COMBINATIONS skills_text job_title job_link = Inr r
           \<and> length (riasec_code r) = 3 \<and> set (riasec_code r) \<subseteq> set ''RIASEC''"
proof -
  define title where
    "title = (if job_title = [] \<and> job_link \<noteq> [] then extract_title_from_url job_link else job_title)"
  obtain sc m where st: "calculate_riasec_scores RIASEC_TYPES skills_text title = Inr (sc, m)"
    and ok: "score_state_ok (sc, m)"
    using calculate_riasec_scores_total [OF assms, of skills_text title] by auto
  have keys: "map fst sc = riasec_letters" using ok by (simp add: score_state_ok_def)
  have "distinct (map fst sc)"
    unfolding keys by (simp add: riasec_letters_def)
  moreover have "length (map fst sc) = 6"
    unfolding keys by (simp add: riasec_letters_def)
  then have "3 \<le> length sc" by simp
  ultimately obtain a b c where abc: "{a, b, c} \<subseteq> set (map fst sc)"
    and code: "determine_riasec_code sc = a @ b @ c"
    using determine_riasec_code_parts by blast
  have "a \<in> set riasec_letters" "b \<in> set riasec_letters" "c \<in> set riasec_letters"
    using abc unfolding keys by simp_all
  then have "length (a @ b @ c) = 3 \<and> set (a @ b @ c) \<subseteq> set ''RIASEC''"
    using riasec_letter_shape [of a] riasec_letter_shape [of b] riasec_letter_shape [of c]
    by simp
  then show ?thesis
    using st code by (simp add: classify_job_def title_def [symmetric] Let_def)
qed

text \<open>
  Claim C1. When the letters of the loaded framework all belong to R, I, A, S, E, C, then for
  every skills text, job title and job link \<open>classify_job\<close> returns a result, and its
  \<open>riasec_code\<close> has exactly three characters, each one of R, I, A, S, E, C.
\<close>

theorem classify_job_code_shape:
  assumes "set (map fst RIASEC_TYPES) \<subseteq> set riasec_letters"
  shows "\<exists>r. classify_job tie_up RIASEC_TYPES COMBINATIONS skills_text job_title job_link = Inr r
           \<and> length (riasec_code r) = 3 \<and> set (riasec_code r) \<subseteq> set ''RIASEC''"
  using assms by (rule classify_job_returns_code)

section \<open>Properties of the confidence\<close>

lemma hd_sort_descending:
  fixes xs :: "real list"
  assumes "xs \<noteq> []"
  shows "hd (sort_key (\<lambda>x. - x) xs) = Max (set xs)"
proof -
  let ?ys = "sort_key (\<lambda>x. - x) xs"
  have ne: "?ys \<noteq> []" using assms by (metis length_sort length_0_conv)
  have srt: "sorted (map (\<lambda>x. - x) ?ys)" by (rule sorted_sort_key)
  have "\<forall>y \<in> set ?ys. y \<le> hd ?ys"
  proof
    fix y assume y: "y \<in> set ?ys"
    obtain z zs where z: "?ys = z # zs" using ne by (cases ?ys) auto
    have "\<forall>w \<in> set zs. - z \<le> - w" using srt unfolding z by simp
    then show "y \<le> hd ?ys" using y unfolding z by auto
  qed
  moreover have "hd ?ys \<in> set ?ys" using ne by (rule hd_in_set)
  ultimately show ?thesis
    by (metis List.finite_set Max_eqI set_sort)
qed

lemma calculate_confidence_formula:
  "calculate_confidence sc =
     (if sum_list (map snd sc) = 0 then 0
      else min (6 / 10 * (Max (set (map snd sc)) / sum_list (map snd sc))
                + 4 / 10 * min (sum_list (map snd sc) / 10) 1) 1)"
proof (cases "sum_list (map snd sc) = 0")
  case True
  then show ?thesis by (simp add: calculate_confidence_def)
next
  case False
  then have "map snd sc \<noteq> []" by auto
  then have "hd (sort_key (\<lambda>x. - x) (map snd sc)) = Max (set (map snd sc))"
    by (rule hd_sort_descending)
  then show ?thesis using False by (simp add: calculate_confidence_def Let_def mult.commute)
qed

lemma sum_list_nonneg_real:
  fixes xs :: "real list"
  shows "list_all (\<lambda>x. 0 \<le> x) xs \<Longrightarrow> 0 \<le> sum_list xs"
  by (induction xs) auto

lemma member_le_sum_list_real:
  fixes xs :: "real list"
  shows "list_all (\<lambda>x. 0 \<le> x) xs \<Longrightarrow> x \<in> set xs \<Longrightarrow> x \<le> sum_list xs"
  by (induction xs) (auto dest: sum_list_nonneg_real)

lemma Max_bounds:
  fixes xs :: "real list"
  assumes "list_all (\<lambda>x. 0 \<le> x) xs" and "xs \<noteq> []"
  shows "0 \<le> Max (set xs)" and "Max (set xs) \<le> sum_list xs"
proof -
  have m: "Max (set xs) \<in> set xs" using assms(2) by (simp add: Max_in)
  show "0 \<le> Max (set xs)" using m assms(1) by (auto simp: list_all_iff)
  show "Max (set xs) \<le> sum_list xs" using member_le_sum_list_real [OF assms(1) m] .
qed

lemma calculate_confidence_bounds:
  assumes "list_all (\<lambda>x. 0 \<le> snd x) sc"
  shows "0 \<le> calculate_confidence sc \<and> calculate_confidence sc \<le> 1"
proof (cases "sum_list (map snd sc) = 0")
  case True
  then show ?thesis by (simp add: calculate_confidence_formula)
next
  case False
  let ?xs = "map snd sc"
  have nn: "list_all (\<lambda>x. 0 \<le> x) ?xs" using assms by (simp add: list_all_iff)
  have ne: "?xs \<noteq> []" using False by auto
  have t: "0 < sum_list ?xs" using sum_list_nonneg_real [OF nn] False by simp
  have "0 \<le> Max (set ?xs) / sum_list ?xs"
    using Max_bounds(1) [OF nn ne] t by simp
  moreover have "0 \<le> min (sum_list ?xs / 10) 1" using t by simp
  ultimately have "0 \<le> 6 / 10 * (Max (set ?xs) / sum_list ?xs) + 4 / 10 * min (sum_list ?xs / 10) 1"
    by simp
  then show ?thesis using False by (simp add: calculate_confidence_formula)
qed

lemma round_nearest_bounds:
  assumes "of_int a \<le> y" and "y \<le> of_int b"
  shows "a \<le> round_nearest tie_up y \<and> round_nearest tie_up y \<le> b"
proof -
  have f: "a \<le> \<lfloor>y\<rfloor>" "\<lfloor>y\<rfloor> \<le> b" using assms by (simp_all add: le_floor_iff floor_le_iff) linarith?
  have "y - of_int \<lfloor>y\<rfloor> \<noteq> 0 \<Longrightarrow> \<lfloor>y\<rfloor> + 1 \<le> b"
  proof -
    assume "y - of_int \<lfloor>y\<rfloor> \<noteq> 0"
    then have "of_int \<lfloor>y\<rfloor> < y" using of_int_floor_le [of y] by linarith
    then have "of_int \<lfloor>y\<rfloor> < (of_int b :: real)" using assms(2) by linarith
    then show ?thesis by simp
  qed
  then show ?thesis using f by (auto simp: round_nearest_def Let_def)
qed

lemma round_nearest_near: "\<bar>of_int (round_nearest tie_up y) - y\<bar> \<le> 1 / 2"
proof -
  define d where "d = y - of_int \<lfloor>y\<rfloor>"
  have d: "0 \<le> d" "d < 1" unfolding d_def by linarith+
  have y: "y = of_int \<lfloor>y\<rfloor> + d" by (simp add: d_def)
  have rn: "round_nearest tie_up y =
      (if d < 1 / 2 then \<lfloor>y\<rfloor> else if 1 / 2 < d then \<lfloor>y\<rfloor> + 1
       else if tie_up y then \<lfloor>y\<rfloor> + 1 else \<lfloor>y\<rfloor>)"
    unfolding round_nearest_def Let_def d_def by (rule refl)
  have "round_nearest tie_up y = \<lfloor>y\<rfloor> \<and> d \<le> 1 / 2
      \<or> round_nearest tie_up y = \<lfloor>y\<rfloor> + 1 \<and> 1 / 2 \<le> d"
    unfolding rn by (cases "d < 1 / 2"; cases "1 / 2 < d"; cases "tie_up y") simp_all
  then show ?thesis
  proof
    assume a: "round_nearest tie_up y = \<lfloor>y\<rfloor> \<and> d \<le> 1 / 2"
    then have "of_int (round_nearest tie_up y) - y = - d" using y by simp
    then show ?thesis using a d by simp
  next
    assume a: "round_nearest tie_up y = \<lfloor>y\<rfloor> + 1 \<and> 1 / 2 \<le> d"
    then have "of_int (round_nearest tie_up y) - y = 1 - d" using y by simp
    then show ?thesis using a d by simp
  qed
qed

lemma round3_bounds:
  assumes "0 \<le> x" and "x \<le> 1"
  shows "0 \<le> round3 tie_up x \<and> round3 tie_up x \<le> 1"
proof -
  have "of_int 0 \<le> x * 1000" and "x * 1000 \<le> of_int 1000" using assms by simp_all
  then have "0 \<le> round_nearest tie_up (x * 1000) \<and> round_nearest tie_up (x * 1000) \<le> 1000"
    by (rule round_nearest_bounds)
  then show ?thesis by (simp add: round3_def)
qed

lemma round3_zero: "round3 tie_up 0 = 0"
  by (simp add: round3_def round_nearest_def)

lemma round3_near: "\<bar>round3 tie_up x - x\<bar> \<le> 1 / 2000"
proof -
  have "\<bar>of_int (round_nearest tie_up (x * 1000)) - x * 1000\<bar> \<le> 1 / 2"
    by (rule round_nearest_near)
  then have "\<bar>(of_int (round_nearest tie_up (x * 1000)) - x * 1000) / 1000\<bar> \<le> (1 / 2) / 1000"
    by (simp only: abs_divide) (simp add: divide_right_mono)
  then show ?thesis by (simp add: round3_def diff_divide_distrib)
qed

lemma round3_no_tie:
  assumes "x * 1000 - of_int \<lfloor>x * 1000\<rfloor> \<noteq> 1 / 2"
  shows "round3 tie_up x = round3 tie_down x"
  using assms by (simp add: round3_def round_nearest_def Let_def)

lemma sum_list_bump:
  fixes xs :: "real list"
  shows "i < length xs \<Longrightarrow> sum_list (xs[i := xs ! i + d]) = sum_list xs + d"
proof (induction xs arbitrary: i)
  case Nil then show ?case by simp
next
  case (Cons x xs) then show ?case by (cases i) auto
qed

lemma Max_bump:
  fixes xs :: "real list"
  assumes "i < length xs" and "xs ! i = Max (set xs)" and "0 \<le> d"
  shows "Max (set (xs[i := xs ! i + d])) = Max (set xs) + d"
proof (rule Max_eqI)
  show "finite (set (xs[i := xs ! i + d]))" by simp
  show "Max (set xs) + d \<in> set (xs[i := xs ! i + d])"
    using assms(1,2) by (metis set_update_memI)
  fix y assume "y \<in> set (xs[i := xs ! i + d])"
  then have "y = xs ! i + d \<or> y \<in> set xs" using set_update_subset_insert by fast
  then show "y \<le> Max (set xs) + d"
  proof
    assume "y = xs ! i + d"
    then show ?thesis using assms(2) by simp
  next
    assume "y \<in> set xs"
    then have "y \<le> Max (set xs)" by simp
    then show ?thesis using assms(3) by linarith
  qed
qed

lemma dominance_monotone:
  fixes t T d :: real
  assumes "0 \<le> t" and "t \<le> T" and "0 < T" and "0 \<le> d"
  shows "t / T \<le> (t + d) / (T + d)"
proof -
  have "d * t \<le> d * T"
    using assms(2,4) by (rule mult_left_mono)
  then have "t * (T + d) \<le> (t + d) * T"
    by (simp add: algebra_simps)
  moreover have "0 < T + d" using assms(3,4) by simp
  ultimately show ?thesis using assms(3) by (simp add: frac_le_eq divide_le_eq pos_divide_le_eq field_simps)
qed

lemma blend_monotone:
  fixes a a' e e' :: real
  assumes "a \<le> a'" and "e \<le> e'"
  shows "min (6 / 10 * a + 4 / 10 * e) 1 \<le> min (6 / 10 * a' + 4 / 10 * e') 1"
proof (rule min.mono)
  show "6 / 10 * a + 4 / 10 * e \<le> 6 / 10 * a' + 4 / 10 * e'" using assms by simp
  show "(1::real) \<le> 1" by simp
qed

text \<open>
  Claim C9. Confidence is monotone in the score of the dominant category. A score vector has no
  negative entry; when its total is not zero and the score of a category that holds the
  greatest score grows by \<open>d \<ge> 0\<close> while every other score stays as it is, the confidence
  does not decrease.
\<close>

theorem calculate_confidence_monotone:
  assumes "list_all (\<lambda>x. 0 \<le> snd x) sc" and "sum_list (map snd sc) \<noteq> 0"
    and "i < length sc" and "snd (sc ! i) = Max (set (map snd sc))" and "0 \<le> d"
  shows "calculate_confidence sc
           \<le> calculate_confidence (sc[i := (fst (sc ! i), snd (sc ! i) + d)])"
proof -
  let ?xs = "map snd sc"
  let ?sc' = "sc[i := (fst (sc ! i), snd (sc ! i) + d)]"
  have xs': "map snd ?sc' = ?xs[i := ?xs ! i + d]"
    using assms(3) by (simp add: map_update)
  have nn: "list_all (\<lambda>x. 0 \<le> x) ?xs" using assms(1) by (simp add: list_all_iff)
  have ne: "?xs \<noteq> []" using assms(3) by auto
  have T: "0 < sum_list ?xs" using sum_list_nonneg_real [OF nn] assms(2) by simp
  have t: "0 \<le> Max (set ?xs)" "Max (set ?xs) \<le> sum_list ?xs"
    using Max_bounds [OF nn ne] by simp_all
  have sum': "sum_list (map snd ?sc') = sum_list ?xs + d"
    unfolding xs' using assms(3) sum_list_bump [of i ?xs d] by simp
  have max': "Max (set (map snd ?sc')) = Max (set ?xs) + d"
    unfolding xs' using assms(3,4,5) by (intro Max_bump) simp_all
  have dom: "Max (set ?xs) / sum_list ?xs \<le> (Max (set ?xs) + d) / (sum_list ?xs + d)"
    using dominance_monotone [OF t T assms(5)] .
  have ev: "min (sum_list ?xs / 10) 1 \<le> min ((sum_list ?xs + d) / 10) 1"
    using assms(5) by (simp add: min_def)
  have nz: "sum_list ?xs + d \<noteq> 0" using T assms(5) by simp
  have "calculate_confidence sc
          = min (6 / 10 * (Max (set ?xs) / sum_list ?xs) + 4 / 10 * min (sum_list ?xs / 10) 1) 1"
    using assms(2) by (simp only: calculate_confidence_formula if_False)
  moreover have "calculate_confidence ?sc'
          = min (6 / 10 * ((Max (set ?xs) + d) / (sum_list ?xs + d))
                 + 4 / 10 * min ((sum_list ?xs + d) / 10) 1) 1"
    using nz by (simp only: calculate_confidence_formula sum' max' if_False)
  ultimately show ?thesis
    using blend_monotone [OF dom ev] by simp
qed

lemma classify_job_fields:
  assumes "classify_job tie_up fw combos skills title link = Inr r"
  shows "map fst (scores r) = riasec_letters \<and> list_all (\<lambda>x. 0 \<le> snd x) (scores r)
         \<and> total_score r = sum_list (map snd (scores r))
         \<and> confidence r = round3 tie_up (calculate_confidence (scores r))
         \<and> riasec_code r = determine_riasec_code (scores r)"
proof -
  define t where "t = (if title = [] \<and> link \<noteq> [] then extract_title_from_url link else title)"
  obtain sc m where st: "calculate_riasec_scores fw skills t = Inr (sc, m)"
    and r: "r = \<lparr> riasec_code = determine_riasec_code sc,
      primary_type = (case map_of fw (if determine_riasec_code sc \<noteq> [] then [hd (determine_riasec_code sc)] else ''I'') of
             None \<Rightarrow> ''Unknown'' | Some td \<Rightarrow> (case type_name td of None \<Rightarrow> ''Unknown'' | Some n \<Rightarrow> n)),
      scores = sc, confidence = round3 tie_up (calculate_confidence sc),
      total_score = sum_list (map snd sc),
      description = fst (combo_description combos (determine_riasec_code sc)),
      gift = snd (combo_description combos (determine_riasec_code sc)),
      matched_indicators = filter (\<lambda>kv. snd kv \<noteq> []) m \<rparr>"
    using assms
    by (auto simp: classify_job_def t_def [symmetric] Let_def split: sum.splits prod.splits)
  have "score_state_ok (sc, m)" using calculate_riasec_scores_ok [OF st] .
  then show ?thesis unfolding r by (simp add: score_state_ok_def)
qed

text \<open>
  Claim C2, as amended. \<open>calculate_confidence\<close> returns 0 when the total score is 0 and otherwise
  \<open>min (0.6 * (top_score / total_score) + 0.4 * min (total_score / 10) 1) 1\<close>, where
  \<open>top_score\<close> is the greatest score. The confidence of the result of \<open>classify_job\<close> is that
  value rounded to three decimal places: it is a multiple of 0.001, it differs from the value
  by at most 0.0005, and it is 0 when the total score is 0. It lies in the closed interval
  from 0 to 1.
\<close>

theorem classify_job_confidence:
  "calculate_confidence sc =
     (if sum_list (map snd sc) = 0 then 0
      else min (6 / 10 * (Max (set (map snd sc)) / sum_list (map snd sc))
                + 4 / 10 * min (sum_list (map snd sc) / 10) 1) 1)
   \<and> (classify_job tie_up RIASEC_TYPES COMBINATIONS skills_text job_title job_link = Inr r \<longrightarrow>
        total_score r = sum_list (map snd (scores r))
        \<and> (\<exists>k. confidence r = of_int k / 1000)
        \<and> \<bar>confidence r - calculate_confidence (scores r)\<bar> \<le> 1 / 2000
        \<and> (total_score r = 0 \<longrightarrow> confidence r = 0)
        \<and> 0 \<le> confidence r \<and> confidence r \<le> 1)"
proof (intro conjI impI)
  show "calculate_confidence sc =
     (if sum_list (map snd sc) = 0 then 0
      else min (6 / 10 * (Max (set (map snd sc)) / sum_list (map snd sc))
                + 4 / 10 * min (sum_list (map snd sc) / 10) 1) 1)"
    by (rule calculate_confidence_formula)
next
  assume a: "classify_job tie_up RIASEC_TYPES COMBINATIONS skills_text job_title job_link = Inr r"
  note f = classify_job_fields [OF a]
  show t: "total_score r = sum_list (map snd (scores r))" using f by simp
  have c: "confidence r = round3 tie_up (calculate_confidence (scores r))" using f by simp
  show "\<exists>k. confidence r = of_int k / 1000"
    unfolding c round3_def by blast
  show "\<bar>confidence r - calculate_confidence (scores r)\<bar> \<le> 1 / 2000"
    unfolding c by (rule round3_near)
  have "list_all (\<lambda>x. 0 \<le> snd x) (scores r)" using f by simp
  then have "0 \<le> calculate_confidence (scores r) \<and> calculate_confidence (scores r) \<le> 1"
    by (rule calculate_confidence_bounds)
  then have b: "0 \<le> round3 tie_up (calculate_confidence (scores r))
      \<and> round3 tie_up (calculate_confidence (scores r)) \<le> 1"
    using round3_bounds by blast
  show "0 \<le> confidence r" using b c by simp
  show "confidence r \<le> 1" using b c by simp
  show "confidence r = 0" if "total_score r = 0"
    using that t c by (simp add: calculate_confidence_def round3_zero)
qed

section \<open>The order of the code\<close>

lemma sorted_scores_descending: "sorted_wrt (\<lambda>a b. snd b \<le> snd a) (sorted_scores sc)"
proof -
  have "sorted (map (\<lambda>x. - snd x) (sorted_scores sc))"
    unfolding sorted_scores_def by (rule sorted_sort_key)
  then show ?thesis by (simp add: sorted_map)
qed

lemma sorted_scores_stable:
  "filter (\<lambda>x. snd x = v) (sorted_scores sc) = filter (\<lambda>x. snd x = v) sc"
proof -
  have "filter (\<lambda>x. - snd x = - v) (sort_key (\<lambda>x. - snd x) sc) = filter (\<lambda>x. - snd x = - v) sc"
    by (rule sort_key_stable)
  then show ?thesis by (simp add: sorted_scores_def)
qed

lemma descending_split:
  fixes s :: "('a \<times> real) list"
  assumes "sorted_wrt (\<lambda>a b. snd b \<le> snd a) s"
  shows "s = filter (\<lambda>x. 0 < snd x) s @ filter (\<lambda>x. \<not> 0 < snd x) s"
  using assms
proof (induction s)
  case Nil
  then show ?case by simp
next
  case (Cons x xs)
  show ?case
  proof (cases "0 < snd x")
    case True
    then show ?thesis using Cons by simp
  next
    case False
    then have "\<forall>y \<in> set xs. \<not> 0 < snd y" using Cons.prems by fastforce
    then have "filter (\<lambda>x. 0 < snd x) xs = []" and "filter (\<lambda>x. \<not> 0 < snd x) xs = xs"
      by (simp_all add: filter_empty_conv filter_id_conv)
    then show ?thesis using False by simp
  qed
qed

lemma filter_not_in_keys:
  assumes "distinct (map fst s)"
  shows "filter (\<lambda>x. fst x \<notin> fst ` set (filter P s)) s = filter (\<lambda>x. \<not> P x) s"
proof (rule filter_cong [OF refl])
  fix x assume x: "x \<in> set s"
  show "(fst x \<notin> fst ` set (filter P s)) = (\<not> P x)"
  proof
    assume "fst x \<notin> fst ` set (filter P s)"
    then show "\<not> P x" using x by force
  next
    assume n: "\<not> P x"
    show "fst x \<notin> fst ` set (filter P s)"
    proof
      assume "fst x \<in> fst ` set (filter P s)"
      then obtain y where y: "y \<in> set s" "P y" "fst y = fst x" by auto
      then have "y = x" using assms x by (metis eq_key_imp_eq_value prod.collapse)
      then show False using n y by simp
    qed
  qed
qed

lemma determine_riasec_code_first_three:
  assumes "distinct (map fst sc)"
  shows "determine_riasec_code sc = concat (take 3 (map fst (sorted_scores sc)))"
proof -
  define s where "s = sorted_scores sc"
  define p where "p = filter (\<lambda>x. 0 < snd x) s"
  define z where "z = filter (\<lambda>x. \<not> 0 < snd x) s"
  define t where "t = take 3 (map fst p)"
  have d: "distinct (map fst s)" using assms by (simp only: s_def sorted_scores_keys)
  have split: "s = p @ z"
    unfolding p_def z_def s_def by (rule descending_split [OF sorted_scores_descending])
  have code: "determine_riasec_code sc =
      concat (take 3 (if length t < 3
                      then t @ take (3 - length t) (map fst (filter (\<lambda>x. fst x \<notin> set t) s))
                      else t))"
    by (simp add: determine_riasec_code_unfold s_def t_def p_def Let_def)
  show ?thesis
  proof (cases "length t < 3")
    case True
    then have tp: "t = map fst p" by (simp add: t_def)
    have lp: "length p < 3" using True unfolding tp by simp
    have rem: "filter (\<lambda>x. fst x \<notin> set t) s = z"
      unfolding tp z_def p_def using filter_not_in_keys [OF d, of "\<lambda>x. 0 < snd x"] by simp
    have "determine_riasec_code sc = concat (take 3 (t @ take (3 - length t) (map fst z)))"
      using code True rem by simp
    also have "\<dots> = concat (take 3 (map fst s))"
      unfolding tp split using lp by simp
    finally show ?thesis by (simp only: s_def)
  next
    case False
    then have l: "3 \<le> length (map fst p)" by (simp add: t_def)
    have "take 3 (map fst s) = take 3 (map fst p)"
      unfolding split using l by simp
    then show ?thesis using code False by (simp add: t_def s_def [symmetric])
  qed
qed

lemma zero_scores:
  assumes "map fst sc = ks" and "list_all (\<lambda>x. snd x = 0) sc"
  shows "sc = map (\<lambda>letter. (letter, 0)) ks"
  using assms by (induction sc arbitrary: ks) auto

lemma sorted_scores_all_equal:
  assumes "list_all (\<lambda>x. snd x = v) sc"
  shows "sorted_scores sc = sc"
proof -
  have "list_all (\<lambda>x. snd x = v) (sorted_scores sc)"
    using assms by (simp add: list_all_iff sorted_scores_def)
  then have "filter (\<lambda>x. snd x = v) (sorted_scores sc) = sorted_scores sc"
    by (simp add: list_all_iff filter_id_conv)
  moreover have "filter (\<lambda>x. snd x = v) sc = sc"
    using assms by (simp add: list_all_iff filter_id_conv)
  ultimately show ?thesis using sorted_scores_stable [of v sc] by simp
qed

text \<open>
  Claim C3. The code is made of the first three letters of the six (letter, score) pairs sorted
  by score, greatest first, where pairs of equal score keep the order R, I, A, S, E, C of the
  score dict. In particular, when all six scores are 0 the code is RIA, whatever the order of
  the framework's categories.
\<close>

theorem determine_riasec_code_order:
  "classify_job tie_up RIASEC_TYPES COMBINATIONS skills_text job_title job_link = Inr r \<longrightarrow>
     map fst (scores r) = riasec_letters
     \<and> sorted_wrt (\<lambda>a b. snd b \<le> snd a) (sorted_scores (scores r))
     \<and> mset (sorted_scores (scores r)) = mset (scores r)
     \<and> (\<forall>v. filter (\<lambda>x. snd x = v) (sorted_scores (scores r)) = filter (\<lambda>x. snd x = v) (scores r))
     \<and> riasec_code r = concat (take 3 (map fst (sorted_scores (scores r))))
     \<and> (list_all (\<lambda>x. snd x = 0) (scores r) \<longrightarrow> riasec_code r = ''RIA'')"
proof
  assume a: "classify_job tie_up RIASEC_TYPES COMBINATIONS skills_text job_title job_link = Inr r"
  note f = classify_job_fields [OF a]
  have keys: "map fst (scores r) = riasec_letters" using f by simp
  have d: "distinct (map fst (scores r))" unfolding keys by (simp add: riasec_letters_def)
  have code: "riasec_code r = concat (take 3 (map fst (sorted_scores (scores r))))"
    using f determine_riasec_code_first_three [OF d] by simp
  have zero: "riasec_code r = ''RIA''" if z: "list_all (\<lambda>x. snd x = 0) (scores r)"
  proof -
    have "sorted_scores (scores r) = scores r" using z by (rule sorted_scores_all_equal)
    then show ?thesis using code keys by (simp add: riasec_letters_def)
  qed
  show "map fst (scores r) = riasec_letters
     \<and> sorted_wrt (\<lambda>a b. snd b \<le> snd a) (sorted_scores (scores r))
     \<and> mset (sorted_scores (scores r)) = mset (scores r)
     \<and> (\<forall>v. filter (\<lambda>x. snd x = v) (sorted_scores (scores r)) = filter (\<lambda>x. snd x = v) (scores r))
     \<and> riasec_code r = concat (take 3 (map fst (sorted_scores (scores r))))
     \<and> (list_all (\<lambda>x. snd x = 0) (scores r) \<longrightarrow> riasec_code r = ''RIA'')"
    using keys code zero sorted_scores_descending sorted_scores_stable sorted_scores_mset
    by blast
qed

section \<open>The strong and the moderate tier\<close>

lemma lookup_update_same: "map_of (AList.update k x al) k = Some x"
  by (simp add: update_conv')

lemma strong_step_present:
  assumes "map_of (fst st) letter = Some v" and "map_of (snd st) letter = Some es"
  shows "strong_step c t letter skill st =
     Inr (AList.update letter
            (v + (if sublist (lower skill) c then (if sublist (lower skill) t then 5 else 3) else 0))
            (fst st),
          AList.update letter (es @ (if sublist (lower skill) c then [skill @ ''(+3.0)''] else []))
            (snd st))"
proof (cases "sublist (lower skill) c")
  case False
  then show ?thesis
    using assms by (cases st) (simp add: strong_step_def update_triv)
next
  case True
  have r: "record_match letter STRONG_INDICATOR_WEIGHT (skill @ ''(+3.0)'') st
      = Inr (AList.update letter (v + 3) (fst st), AList.update letter (es @ [skill @ ''(+3.0)'']) (snd st))"
    using record_match_Some [OF assms] by (simp add: STRONG_INDICATOR_WEIGHT_def)
  have a: "add_score letter TITLE_BONUS_WEIGHT (AList.update letter (v + 3) (fst st))
      = Inr (AList.update letter (v + 5) (fst st))"
    by (simp add: add_score_def lookup_update_same TITLE_BONUS_WEIGHT_def add.commute)
  show ?thesis using True r a by (simp add: strong_step_def)
qed

lemma strong_loop_present:
  assumes "map_of (fst st) letter = Some v" and "map_of (snd st) letter = Some es"
  shows "for_each (strong_step combined_text title_text letter) skills st =
     Inr (AList.update letter
            (v + (\<Sum>skill\<leftarrow>skills.
                    if sublist (lower skill) combined_text
                    then (if sublist (lower skill) title_text then 5 else 3) else 0))
            (fst st),
          AList.update letter
            (es @ map (\<lambda>skill. skill @ ''(+3.0)'')
                    (filter (\<lambda>skill. sublist (lower skill) combined_text) skills))
            (snd st))"
  using assms
proof (induction skills arbitrary: st v es)
  case Nil
  then show ?case by (cases st) (simp add: update_triv)
next
  case (Cons skill skills)
  let ?w = "if sublist (lower skill) combined_text
            then (if sublist (lower skill) title_text then 5 else 3) else (0::real)"
  let ?e = "if sublist (lower skill) combined_text then [skill @ ''(+3.0)''] else []"
  let ?st1 = "(AList.update letter (v + ?w) (fst st), AList.update letter (es @ ?e) (snd st))"
  have step: "strong_step combined_text title_text letter skill st = Inr ?st1"
    using strong_step_present [OF Cons.prems] .
  have "for_each (strong_step combined_text title_text letter) skills ?st1 =
     Inr (AList.update letter
            ((v + ?w) + (\<Sum>skill\<leftarrow>skills.
                    if sublist (lower skill) combined_text
                    then (if sublist (lower skill) title_text then 5 else 3) else 0))
            (fst ?st1),
          AList.update letter
            ((es @ ?e) @ map (\<lambda>skill. skill @ ''(+3.0)'')
                    (filter (\<lambda>skill. sublist (lower skill) combined_text) skills))
            (snd ?st1))"
    by (rule Cons.IH) (simp_all add: lookup_update_same)
  then show ?case using step by (simp add: add.assoc)
qed

lemma moderate_step_present:
  assumes "map_of (fst st) letter = Some v" and "map_of (snd st) letter = Some es"
    and "sublist (lower skill) c"
  shows "moderate_step c letter skill st =
     (if list_ex (\<lambda>m. sublist (lower skill) (lower m)) es then Inr st
      else Inr (AList.update letter (v + 3 / 2) (fst st),
                AList.update letter (es @ [skill @ ''(+1.5)'']) (snd st)))"
  using assms record_match_Some [OF assms(1,2), of MODERATE_INDICATOR_WEIGHT "skill @ ''(+1.5)''"]
  by (simp add: moderate_step_def MODERATE_INDICATOR_WEIGHT_def)

lemma record_match_trace:
  assumes "record_match letter w e st = Inr st'"
  shows "trace_of letter st' = trace_of letter st @ [e]"
  using assms
  by (auto simp: record_match_def add_score_def append_match_def trace_of_def lookup_update_same
      split: option.splits sum.splits)

lemma strong_step_trace:
  assumes "strong_step c t letter skill st = Inr st'"
  shows "trace_of letter st' =
           trace_of letter st @ (if sublist (lower skill) c then [skill @ ''(+3.0)''] else [])"
proof (cases "sublist (lower skill) c")
  case False
  then show ?thesis using assms by (simp add: strong_step_def)
next
  case True
  then obtain st1 where r: "record_match letter STRONG_INDICATOR_WEIGHT (skill @ ''(+3.0)'') st = Inr st1"
    using assms by (auto simp: strong_step_def split: sum.splits)
  have "snd st' = snd st1"
    using assms True r by (auto simp: strong_step_def split: sum.splits if_splits)
  then have "trace_of letter st' = trace_of letter st1" by (simp add: trace_of_def)
  then show ?thesis using record_match_trace [OF r] True by simp
qed

lemma strong_loop_trace:
  assumes "for_each (strong_step c t letter) strong_list st = Inr st1"
  shows "trace_of letter st1 =
           trace_of letter st @ map (\<lambda>s. s @ ''(+3.0)'') (filter (\<lambda>s. sublist (lower s) c) strong_list)"
  using assms
proof (induction strong_list arbitrary: st)
  case Nil
  then show ?case by simp
next
  case (Cons s ss)
  then obtain st' where a: "strong_step c t letter s st = Inr st'"
    and b: "for_each (strong_step c t letter) ss st' = Inr st1"
    by (auto split: sum.splits)
  show ?case using Cons.IH [OF b] strong_step_trace [OF a] by simp
qed

lemma moderate_step_trace:
  assumes "moderate_step c letter skill st = Inr st'"
  shows "set (trace_of letter st) \<subseteq> set (trace_of letter st')"
proof (cases "st' = st")
  case True
  then show ?thesis by simp
next
  case False
  then have "record_match letter MODERATE_INDICATOR_WEIGHT (skill @ ''(+1.5)'') st = Inr st'"
    using assms by (auto simp: moderate_step_def Let_def split: if_splits option.splits)
  then show ?thesis using record_match_trace by fastforce
qed

lemma sublist_lower_entry: "lower m = lower s \<Longrightarrow> sublist (lower m) (lower (s @ tag))"
  by (simp add: lower_append)

lemma moderate_step_listed_strong:
  assumes "lower m = lower s"
    and "sublist (lower s) c \<longrightarrow> s @ ''(+3.0)'' \<in> set (trace_of letter st)"
  shows "moderate_step c letter m st = Inr st"
proof (cases "sublist (lower m) c")
  case False
  then show ?thesis by (simp add: moderate_step_def)
next
  case True
  then have e: "s @ ''(+3.0)'' \<in> set (trace_of letter st)" using assms by simp
  then obtain es where es: "map_of (snd st) letter = Some es" and i: "s @ ''(+3.0)'' \<in> set es"
    by (cases "map_of (snd st) letter") (auto simp: trace_of_def)
  have "list_ex (\<lambda>x. sublist (lower m) (lower x)) es"
    using i sublist_lower_entry [OF assms(1)] by (auto simp: list_ex_iff)
  then show ?thesis using True es by (simp add: moderate_step_def)
qed

lemma moderate_loop_skips_strong:
  assumes "list_all (\<lambda>s. sublist (lower s) c \<longrightarrow> s @ ''(+3.0)'' \<in> set (trace_of letter st)) strong_list"
  shows "for_each (moderate_step c letter) moderate_list st =
         for_each (moderate_step c letter)
           (filter (\<lambda>m. lower m \<notin> set (map lower strong_list)) moderate_list) st"
  using assms
proof (induction moderate_list arbitrary: st)
  case Nil
  then show ?case by simp
next
  case (Cons m ms)
  show ?case
  proof (cases "lower m \<in> set (map lower strong_list)")
    case True
    then obtain s where s: "s \<in> set strong_list" "lower m = lower s" by auto
    then have "sublist (lower s) c \<longrightarrow> s @ ''(+3.0)'' \<in> set (trace_of letter st)"
      using Cons.prems by (simp add: list_all_iff)
    then have "moderate_step c letter m st = Inr st"
      using s(2) by (rule moderate_step_listed_strong [rotated])
    then show ?thesis using True Cons.IH [OF Cons.prems] by simp
  next
    case False
    show ?thesis
    proof (cases "moderate_step c letter m st")
      case (Inl e)
      then show ?thesis using False by simp
    next
      case (Inr st')
      have "list_all (\<lambda>s. sublist (lower s) c \<longrightarrow> s @ ''(+3.0)'' \<in> set (trace_of letter st')) strong_list"
        using Cons.prems moderate_step_trace [OF Inr] by (auto simp: list_all_iff)
      then show ?thesis using False Inr Cons.IH [of st'] by simp
    qed
  qed
qed

lemma lookup_update_other: "k \<noteq> l \<Longrightarrow> map_of (AList.update k x al) l = map_of al l"
  by (simp add: update_conv')

lemma record_match_other:
  assumes "record_match k w e st = Inr st'" and "k \<noteq> l"
  shows "map_of (fst st') l = map_of (fst st) l \<and> map_of (snd st') l = map_of (snd st) l"
  using assms
  by (auto simp: record_match_def add_score_def append_match_def lookup_update_other
      split: option.splits sum.splits)

lemma strong_step_other:
  assumes "strong_step c t k skill st = Inr st'" and "k \<noteq> l"
  shows "map_of (fst st') l = map_of (fst st) l \<and> map_of (snd st') l = map_of (snd st) l"
proof (cases "sublist (lower skill) c")
  case False
  then show ?thesis using assms by (simp add: strong_step_def)
next
  case True
  then obtain st1 where r: "record_match k STRONG_INDICATOR_WEIGHT (skill @ ''(+3.0)'') st = Inr st1"
    using assms by (auto simp: strong_step_def split: sum.splits)
  note o = record_match_other [OF r assms(2)]
  show ?thesis
  proof (cases "sublist (lower skill) t")
    case False
    then show ?thesis using assms(1) True r o by (simp add: strong_step_def)
  next
    case t: True
    then obtain sc where a: "add_score k TITLE_BONUS_WEIGHT (fst st1) = Inr sc"
      and st': "st' = (sc, snd st1)"
      using assms(1) True r by (auto simp: strong_step_def split: sum.splits)
    have "map_of sc l = map_of (fst st1) l"
      using a assms(2) by (auto simp: add_score_def lookup_update_other split: option.splits)
    then show ?thesis using o st' by simp
  qed
qed

lemma moderate_step_other:
  assumes "moderate_step c k skill st = Inr st'" and "k \<noteq> l"
  shows "map_of (fst st') l = map_of (fst st) l \<and> map_of (snd st') l = map_of (snd st) l"
proof (cases "st' = st")
  case True
  then show ?thesis by simp
next
  case False
  then have "record_match k MODERATE_INDICATOR_WEIGHT (skill @ ''(+1.5)'') st = Inr st'"
    using assms by (auto simp: moderate_step_def Let_def split: if_splits option.splits)
  then show ?thesis using assms(2) by (rule record_match_other)
qed

lemma keyword_step_other:
  assumes "keyword_step c td k kw st = Inr st'" and "k \<noteq> l"
  shows "map_of (fst st') l = map_of (fst st) l \<and> map_of (snd st') l = map_of (snd st) l"
proof (cases "st' = st")
  case True
  then show ?thesis by simp
next
  case False
  then have "record_match k KEYWORD_WEIGHT (kw @ ''(+1.0)'') st = Inr st'"
    using assms by (auto simp: keyword_step_def Let_def split: if_splits)
  then show ?thesis using assms(2) by (rule record_match_other)
qed

lemma score_type_other:
  assumes "score_type c t item st = Inr st'" and "fst item \<noteq> l"
  shows "map_of (fst st') l = map_of (fst st) l \<and> map_of (snd st') l = map_of (snd st) l"
proof -
  let ?I = "\<lambda>s. map_of (fst s) l = map_of (fst st) l \<and> map_of (snd s) l = map_of (snd st) l"
  obtain st1 st2 where
    a: "for_each (strong_step c t (fst item)) (strong (snd item)) st = Inr st1" and
    b: "for_each (moderate_step c (fst item)) (moderate (snd item)) st1 = Inr st2" and
    d: "for_each (keyword_step c (snd item) (fst item)) (type_keywords (snd item)) st2 = Inr st'"
    using assms(1) by (auto simp: score_type_def split: sum.splits)
  have i0: "?I st" by simp
  have i1: "?I st1"
  proof (rule for_each_invariant [where I = ?I, OF a i0])
    fix x s s' assume "?I s" "strong_step c t (fst item) x s = Inr s'"
    then show "?I s'" using strong_step_other [OF _ assms(2)] by metis
  qed
  have i2: "?I st2"
  proof (rule for_each_invariant [where I = ?I, OF b i1])
    fix x s s' assume "?I s" "moderate_step c (fst item) x s = Inr s'"
    then show "?I s'" using moderate_step_other [OF _ assms(2)] by metis
  qed
  show "?I st'"
  proof (rule for_each_invariant [where I = ?I, OF d i2])
    fix x s s' assume "?I s" "keyword_step c (snd item) (fst item) x s = Inr s'"
    then show "?I s'" using keyword_step_other [OF _ assms(2)] by metis
  qed
qed

lemma moderate_loop_present:
  assumes "map_of (fst st) l = Some v" and "map_of (snd st) l = Some es"
  shows "\<exists>mods. for_each (moderate_step c l) ms st =
           Inr (AList.update l (v + 3 / 2 * real (length mods)) (fst st),
                AList.update l (es @ map (\<lambda>s. s @ ''(+1.5)'') mods) (snd st))
         \<and> set mods \<subseteq> set ms"
  using assms
proof (induction ms arbitrary: st v es)
  case Nil
  show ?case using Nil by (intro exI [of _ "[]"]) (cases st, simp add: update_triv)
next
  case (Cons skill ms)
  show ?case
  proof (cases "moderate_step c l skill st = Inr st")
    case True
    obtain mods where "for_each (moderate_step c l) ms st =
           Inr (AList.update l (v + 3 / 2 * real (length mods)) (fst st),
                AList.update l (es @ map (\<lambda>s. s @ ''(+1.5)'') mods) (snd st))"
      and "set mods \<subseteq> set ms"
      using Cons.IH [OF Cons.prems] by blast
    then show ?thesis using True by (intro exI [of _ mods]) auto
  next
    case False
    then have sub: "sublist (lower skill) c"
      by (auto simp: moderate_step_def Let_def split: if_splits)
    let ?st1 = "(AList.update l (v + 3 / 2) (fst st), AList.update l (es @ [skill @ ''(+1.5)'']) (snd st))"
    have step: "moderate_step c l skill st = Inr ?st1"
      using moderate_step_present [OF Cons.prems sub] False by (auto split: if_splits)
    obtain mods where r: "for_each (moderate_step c l) ms ?st1 =
           Inr (AList.update l ((v + 3 / 2) + 3 / 2 * real (length mods)) (fst ?st1),
                AList.update l ((es @ [skill @ ''(+1.5)'']) @ map (\<lambda>s. s @ ''(+1.5)'') mods) (snd ?st1))"
      and m: "set mods \<subseteq> set ms"
      using Cons.IH [of ?st1 "v + 3 / 2" "es @ [skill @ ''(+1.5)'']"]
      by (auto simp: lookup_update_same)
    have eq: "(v + 3 / 2) + 3 / 2 * real (length mods) = v + 3 / 2 * real (length (skill # mods))"
      by (simp add: field_simps)
    show ?thesis
      using step r [unfolded eq] m by (intro exI [of _ "skill # mods"]) auto
  qed
qed

lemma keyword_loop_present:
  assumes "map_of (fst st) l = Some v" and "map_of (snd st) l = Some es"
  shows "\<exists>kws. for_each (keyword_step c td l) ks st =
           Inr (AList.update l (v + real (length kws)) (fst st),
                AList.update l (es @ map (\<lambda>s. s @ ''(+1.0)'') kws) (snd st))
         \<and> set kws \<subseteq> set ks"
  using assms
proof (induction ks arbitrary: st v es)
  case Nil
  show ?case using Nil by (intro exI [of _ "[]"]) (cases st, simp add: update_triv)
next
  case (Cons kw ks)
  show ?case
  proof (cases "keyword_step c td l kw st = Inr st")
    case True
    obtain kws where "for_each (keyword_step c td l) ks st =
           Inr (AList.update l (v + real (length kws)) (fst st),
                AList.update l (es @ map (\<lambda>s. s @ ''(+1.0)'') kws) (snd st))"
      and "set kws \<subseteq> set ks"
      using Cons.IH [OF Cons.prems] by blast
    then show ?thesis using True by (intro exI [of _ kws]) auto
  next
    case False
    let ?st1 = "(AList.update l (v + 1) (fst st), AList.update l (es @ [kw @ ''(+1.0)'']) (snd st))"
    have "keyword_step c td l kw st = record_match l KEYWORD_WEIGHT (kw @ ''(+1.0)'') st"
      using False by (auto simp: keyword_step_def Let_def split: if_splits)
    then have step: "keyword_step c td l kw st = Inr ?st1"
      using record_match_Some [OF Cons.prems, of KEYWORD_WEIGHT "kw @ ''(+1.0)''"]
      by (simp add: KEYWORD_WEIGHT_def)
    obtain kws where r: "for_each (keyword_step c td l) ks ?st1 =
           Inr (AList.update l ((v + 1) + real (length kws)) (fst ?st1),
                AList.update l ((es @ [kw @ ''(+1.0)'']) @ map (\<lambda>s. s @ ''(+1.0)'') kws) (snd ?st1))"
      and m: "set kws \<subseteq> set ks"
      using Cons.IH [of ?st1 "v + 1" "es @ [kw @ ''(+1.0)'']"]
      by (auto simp: lookup_update_same)
    have eq: "(v + 1) + real (length kws) = v + real (length (kw # kws))"
      by simp
    show ?thesis
      using step r [unfolded eq] m by (intro exI [of _ "kw # kws"]) auto
  qed
qed


lemma score_type_own:
  assumes "map_of (fst st) l = Some v" and "map_of (snd st) l = Some es"
  shows "\<exists>st' mods kws.
           score_type c t (l, td) st = Inr st'
           \<and> map_of (fst st') l =
               Some (v + (\<Sum>s\<leftarrow>strong td. if sublist (lower s) c
                                             then (if sublist (lower s) t then 5 else 3) else 0)
                       + 3 / 2 * real (length mods) + real (length kws))
           \<and> map_of (snd st') l =
               Some (es @ map (\<lambda>s. s @ ''(+3.0)'') (filter (\<lambda>s. sublist (lower s) c) (strong td))
                        @ map (\<lambda>s. s @ ''(+1.5)'') mods @ map (\<lambda>s. s @ ''(+1.0)'') kws)
           \<and> set mods \<subseteq> set (moderate td) \<and> set kws \<subseteq> set (type_keywords td)"
proof -
  let ?v1 = "v + (\<Sum>s\<leftarrow>strong td. if sublist (lower s) c
                                   then (if sublist (lower s) t then 5 else 3) else 0)"
  let ?es1 = "es @ map (\<lambda>s. s @ ''(+3.0)'') (filter (\<lambda>s. sublist (lower s) c) (strong td))"
  let ?st1 = "(AList.update l ?v1 (fst st), AList.update l ?es1 (snd st))"
  have a: "for_each (strong_step c t l) (strong td) st = Inr ?st1"
    by (rule strong_loop_present [OF assms])
  have v1: "map_of (fst ?st1) l = Some ?v1" and es1: "map_of (snd ?st1) l = Some ?es1"
    by (simp_all add: lookup_update_same)
  obtain mods where b: "for_each (moderate_step c l) (moderate td) ?st1 =
        Inr (AList.update l (?v1 + 3 / 2 * real (length mods)) (fst ?st1),
             AList.update l (?es1 @ map (\<lambda>s. s @ ''(+1.5)'') mods) (snd ?st1))"
    and mods: "set mods \<subseteq> set (moderate td)"
    using moderate_loop_present [OF v1 es1] by blast
  let ?v2 = "?v1 + 3 / 2 * real (length mods)"
  let ?es2 = "?es1 @ map (\<lambda>s. s @ ''(+1.5)'') mods"
  let ?st2 = "(AList.update l ?v2 (fst ?st1), AList.update l ?es2 (snd ?st1))"
  have v2: "map_of (fst ?st2) l = Some ?v2" and es2: "map_of (snd ?st2) l = Some ?es2"
    by (simp_all add: lookup_update_same)
  obtain kws where d: "for_each (keyword_step c td l) (type_keywords td) ?st2 =
        Inr (AList.update l (?v2 + real (length kws)) (fst ?st2),
             AList.update l (?es2 @ map (\<lambda>s. s @ ''(+1.0)'') kws) (snd ?st2))"
    and kws: "set kws \<subseteq> set (type_keywords td)"
    using keyword_loop_present [OF v2 es2] by blast
  let ?st3 = "(AList.update l (?v2 + real (length kws)) (fst ?st2),
               AList.update l (?es2 @ map (\<lambda>s. s @ ''(+1.0)'') kws) (snd ?st2))"
  have r: "score_type c t (l, td) st = Inr ?st3"
    using a b d by (simp add: score_type_def)
  have "map_of (fst ?st3) l = Some (?v2 + real (length kws))"
    and "map_of (snd ?st3) l = Some (?es2 @ map (\<lambda>s. s @ ''(+1.0)'') kws)"
    by (simp_all add: lookup_update_same)
  then show ?thesis
    apply (intro exI [of _ ?st3])
    apply (rule exI [of _ mods], rule exI [of _ kws])
    using r mods kws by simp
qed

lemma score_loop_other:
  assumes "for_each (score_type c t) fw st = Inr st'" and "l \<notin> set (map fst fw)"
  shows "map_of (fst st') l = map_of (fst st) l \<and> map_of (snd st') l = map_of (snd st) l"
proof (rule for_each_invariant
    [where I = "\<lambda>s. map_of (fst s) l = map_of (fst st) l \<and> map_of (snd s) l = map_of (snd st) l",
     OF assms(1)])
  show "map_of (fst st) l = map_of (fst st) l \<and> map_of (snd st) l = map_of (snd st) l" by simp
next
  fix x a b
  assume x: "x \<in> set fw"
    and i: "map_of (fst a) l = map_of (fst st) l \<and> map_of (snd a) l = map_of (snd st) l"
    and s: "score_type c t x a = Inr b"
  have "fst x \<noteq> l" using x assms(2) by auto
  then show "map_of (fst b) l = map_of (fst st) l \<and> map_of (snd b) l = map_of (snd st) l"
    using score_type_other [OF s] i by simp
qed

lemma score_loop_total:
  assumes "score_state_ok st" and "set (map fst fw) \<subseteq> set riasec_letters"
  shows "\<exists>st'. for_each (score_type c t) fw st = Inr st' \<and> score_state_ok st'"
proof (rule for_each_total [where I = score_state_ok, OF assms(1)])
  fix x a
  assume "x \<in> set fw" "score_state_ok a"
  then show "\<exists>b. score_type c t x a = Inr b \<and> score_state_ok b"
    using score_type_total [of a x] assms(2) by auto
qed

lemma score_loop_letter:
  assumes "score_state_ok st" and "set (map fst fw) \<subseteq> set riasec_letters"
    and "distinct (map fst fw)" and "(l, td) \<in> set fw"
    and "map_of (fst st) l = Some v" and "map_of (snd st) l = Some es"
  shows "\<exists>st' mods kws.
           for_each (score_type c t) fw st = Inr st'
           \<and> map_of (fst st') l =
               Some (v + (\<Sum>s\<leftarrow>strong td. if sublist (lower s) c
                                             then (if sublist (lower s) t then 5 else 3) else 0)
                       + 3 / 2 * real (length mods) + real (length kws))
           \<and> map_of (snd st') l =
               Some (es @ map (\<lambda>s. s @ ''(+3.0)'') (filter (\<lambda>s. sublist (lower s) c) (strong td))
                        @ map (\<lambda>s. s @ ''(+1.5)'') mods @ map (\<lambda>s. s @ ''(+1.0)'') kws)
           \<and> set mods \<subseteq> set (moderate td) \<and> set kws \<subseteq> set (type_keywords td)"
  using assms
proof (induction fw arbitrary: st)
  case Nil
  then show ?case by simp
next
  case (Cons item fw)
  have letters: "set (map fst fw) \<subseteq> set riasec_letters" and item: "fst item \<in> set riasec_letters"
    using Cons.prems(2) by auto
  have dist: "distinct (map fst fw)" and fresh: "fst item \<notin> set (map fst fw)"
    using Cons.prems(3) by auto
  show ?case
  proof (cases "item = (l, td)")
    case True
    obtain st1 mods kws where
      s: "score_type c t (l, td) st = Inr st1" and
      v1: "map_of (fst st1) l =
               Some (v + (\<Sum>s\<leftarrow>strong td. if sublist (lower s) c
                                             then (if sublist (lower s) t then 5 else 3) else 0)
                       + 3 / 2 * real (length mods) + real (length kws))" and
      e1: "map_of (snd st1) l =
               Some (es @ map (\<lambda>s. s @ ''(+3.0)'') (filter (\<lambda>s. sublist (lower s) c) (strong td))
                        @ map (\<lambda>s. s @ ''(+1.5)'') mods @ map (\<lambda>s. s @ ''(+1.0)'') kws)" and
      m: "set mods \<subseteq> set (moderate td)" "set kws \<subseteq> set (type_keywords td)"
      using score_type_own [OF Cons.prems(5,6), of c t td] by blast
    have ok1: "score_state_ok st1"
      using score_type_ok [OF s Cons.prems(1)] .
    obtain st' where r: "for_each (score_type c t) fw st1 = Inr st'"
      using score_loop_total [OF ok1 letters] by blast
    have "l \<notin> set (map fst fw)" using fresh True by simp
    then have "map_of (fst st') l = map_of (fst st1) l \<and> map_of (snd st') l = map_of (snd st1) l"
      by (rule score_loop_other [OF r])
    then show ?thesis
      apply (intro exI [of _ st'])
      apply (rule exI [of _ mods], rule exI [of _ kws])
      using True s r v1 e1 m by simp
  next
    case False
    then have mem: "(l, td) \<in> set fw" using Cons.prems(4) by simp
    then have "l \<in> set (map fst fw)" by force
    then have ne: "fst item \<noteq> l" using fresh by auto
    obtain st1 where s: "score_type c t item st = Inr st1" and ok1: "score_state_ok st1"
      using score_type_total [OF Cons.prems(1) item] by blast
    have same: "map_of (fst st1) l = Some v" "map_of (snd st1) l = Some es"
      using score_type_other [OF s ne] Cons.prems(5,6) by simp_all
    show ?thesis
      using Cons.IH [OF ok1 letters dist mem same] s by simp
  qed
qed

lemma initial_lookup:
  assumes "l \<in> set riasec_letters"
  shows "map_of (map (\<lambda>letter. (letter, 0::real)) riasec_letters) l = Some 0"
    and "map_of (map (\<lambda>letter. (letter, []::string list)) riasec_letters) l = Some []"
  using assms by (auto simp: riasec_letters_def)

text \<open>
  Claim C7. \<open>calculate_riasec_scores\<close> returns for every input when the framework is a dict
  (no letter twice) whose letters are among R, I, A, S, E, C. For a category of the framework,
  every phrase of its strong list that is a substring of the combined text adds the strong
  weight 3.0 to the score of that category, and 3.0 + 2.0 = 5.0 when the phrase is also a
  substring of the normalized title: the title bonus goes to the same category. The trace of
  the category has one entry per strong phrase found, tagged \<open>(+3.0)\<close>, whether the bonus was
  given or not; the rest of the score and of the trace comes from counted moderate phrases
  (1.5 each) and counted keywords (1.0 each) of that category.
\<close>

theorem strong_title_bonus:
  assumes "set (map fst RIASEC_TYPES) \<subseteq> set riasec_letters"
    and "distinct (map fst RIASEC_TYPES)"
    and "(letter, td) \<in> set RIASEC_TYPES"
  shows "\<exists>sc matched mods kws.
           calculate_riasec_scores RIASEC_TYPES skills_text job_title = Inr (sc, matched)
           \<and> map_of sc letter =
               Some ((\<Sum>skill\<leftarrow>strong td.
                        if sublist (lower skill) (normalize_text (job_title @ '' '' @ skills_text))
                        then (if sublist (lower skill) (normalize_text job_title)
                              then STRONG_INDICATOR_WEIGHT + TITLE_BONUS_WEIGHT
                              else STRONG_INDICATOR_WEIGHT)
                        else 0)
                     + MODERATE_INDICATOR_WEIGHT * real (length mods)
                     + KEYWORD_WEIGHT * real (length kws))
           \<and> STRONG_INDICATOR_WEIGHT + TITLE_BONUS_WEIGHT = 5
           \<and> map_of matched letter =
               Some (map (\<lambda>skill. skill @ ''(+3.0)'')
                       (filter (\<lambda>skill. sublist (lower skill)
                                  (normalize_text (job_title @ '' '' @ skills_text))) (strong td))
                     @ map (\<lambda>skill. skill @ ''(+1.5)'') mods
                     @ map (\<lambda>keyword. keyword @ ''(+1.0)'') kws)
           \<and> set mods \<subseteq> set (moderate td) \<and> set kws \<subseteq> set (type_keywords td)"
proof -
  let ?c = "normalize_text (job_title @ '' '' @ skills_text)"
  let ?t = "normalize_text job_title"
  let ?st = "(map (\<lambda>letter. (letter, 0::real)) riasec_letters,
              map (\<lambda>letter. (letter, []::string list)) riasec_letters)"
  have l: "letter \<in> set riasec_letters" using assms(1,3) by force
  have v: "map_of (fst ?st) letter = Some 0" and es: "map_of (snd ?st) letter = Some []"
    using initial_lookup [OF l] by simp_all
  obtain st' mods kws where
    r: "for_each (score_type ?c ?t) RIASEC_TYPES ?st = Inr st'" and
    v1: "map_of (fst st') letter =
               Some (0 + (\<Sum>s\<leftarrow>strong td. if sublist (lower s) ?c
                                             then (if sublist (lower s) ?t then 5 else 3) else 0)
                       + 3 / 2 * real (length mods) + real (length kws))" and
    e1: "map_of (snd st') letter =
               Some ([] @ map (\<lambda>s. s @ ''(+3.0)'') (filter (\<lambda>s. sublist (lower s) ?c) (strong td))
                        @ map (\<lambda>s. s @ ''(+1.5)'') mods @ map (\<lambda>s. s @ ''(+1.0)'') kws)" and
    m: "set mods \<subseteq> set (moderate td)" "set kws \<subseteq> set (type_keywords td)"
    using score_loop_letter [OF initial_state_ok assms v es, of ?c ?t] by blast
  have c: "calculate_riasec_scores RIASEC_TYPES skills_text job_title = Inr (fst st', snd st')"
    using r by (simp add: calculate_riasec_scores_def)
  show ?thesis
    apply (rule exI [of _ "fst st'"], rule exI [of _ "snd st'"])
    apply (rule exI [of _ mods], rule exI [of _ kws])
    using c v1 e1 m
    by (simp add: STRONG_INDICATOR_WEIGHT_def TITLE_BONUS_WEIGHT_def
         MODERATE_INDICATOR_WEIGHT_def KEYWORD_WEIGHT_def cong: if_cong)
qed

section \<open>Properties of the batch pipeline\<close>

lemma process_batch_append:
  "process_batch tu fw combos (a @ b) ht =
     (case process_batch tu fw combos a ht of
        Inl e \<Rightarrow> Inl e
      | Inr ra \<Rightarrow> (case process_batch tu fw combos b ht of Inl e \<Rightarrow> Inl e | Inr rb \<Rightarrow> Inr (ra @ rb)))"
  by (induction a) (auto split: sum.splits)

lemma process_batch_rows:
  assumes "process_batch tu fw combos batch ht = Inr rs"
  shows "length rs = length batch
         \<and> (\<forall>i<length batch. process_row tu fw combos ht (batch ! i) = Inr (rs ! i))"
  using assms
proof (induction batch arbitrary: rs)
  case Nil
  then show ?case by simp
next
  case (Cons row batch)
  then obtain r rs' where r: "process_row tu fw combos ht row = Inr r"
    and rs': "process_batch tu fw combos batch ht = Inr rs'" and rs: "rs = r # rs'"
    by (auto split: sum.splits)
  show ?case using Cons.IH [OF rs'] r rs by (auto simp: nth_Cons split: nat.splits)
qed

lemma batch_loop_result:
  assumes "\<And>limit offset.
             sq path (comma_join cols) limit offset = Inr (take limit (drop offset all_rows))"
    and "0 < batch_size" and "total_rows \<le> length all_rows"
    and "processed \<le> total_rows" and "select_query w = sq"
  shows "\<exists>w' qs. batch_loop tu fw combos path cols ht batch_size total_rows processed acc w =
            Some (case process_batch tu fw combos
                         (take (total_rows - processed) (drop processed all_rows)) ht of
                    Inl e \<Rightarrow> Inl e | Inr rs \<Rightarrow> Inr (acc @ rs), w')
          \<and> w' = w\<lparr>effects := effects w @ qs\<rparr>
          \<and> list_all is_batch_query qs
          \<and> (processed = total_rows \<longrightarrow> qs = [])"
  using assms(4,5)
proof (induction "total_rows - processed" arbitrary: processed acc w rule: less_induct)
  case less
  show ?case
  proof (cases "processed < total_rows")
    case False
    then have "processed = total_rows" using less.prems by simp
    then show ?thesis
      by (subst batch_loop.simps) (simp add: exI [of _ "[]"])
  next
    case True
    define limit where "limit = min batch_size (total_rows - processed)"
    define batch where "batch = take limit (drop processed all_rows)"
    define w1 where "w1 = w\<lparr>effects := effects w @ [BatchQuery path limit processed]\<rparr>"
    have pos: "0 < limit" using True assms(2) by (simp add: limit_def)
    have le: "processed + limit \<le> total_rows" using True by (simp add: limit_def)
    have len: "length batch = limit"
      using le assms(3) by (simp add: batch_def)
    have sel: "select_query w path (comma_join cols) limit processed = Inr batch"
      using assms(1) less.prems(2) by (simp add: batch_def)
    have sq1: "select_query w1 = sq" using less.prems(2) by (simp add: w1_def)
    have whole: "take (total_rows - processed) (drop processed all_rows)
        = batch @ take (total_rows - (processed + limit)) (drop (processed + limit) all_rows)"
    proof -
      have "total_rows - processed = limit + (total_rows - (processed + limit))" using le by simp
      then show ?thesis
        unfolding batch_def by (simp only: take_add drop_drop add.commute)
    qed
    have q: "is_batch_query (BatchQuery path limit processed)" by (simp add: is_batch_query_def)
    show ?thesis
    proof (cases "process_batch tu fw combos batch ht")
      case (Inl e)
      have "batch_loop tu fw combos path cols ht batch_size total_rows processed acc w
          = Some (Inl e, w1)"
        using True sel Inl
        by (subst batch_loop.simps) (simp add: limit_def [symmetric] w1_def)
      moreover have "process_batch tu fw combos
          (take (total_rows - processed) (drop processed all_rows)) ht = Inl e"
        unfolding whole process_batch_append using Inl by simp
      ultimately show ?thesis
        using q True by (intro exI [of _ w1] exI [of _ "[BatchQuery path limit processed]"])
          (simp add: w1_def)
    next
      case (Inr rs1)
      have step: "batch_loop tu fw combos path cols ht batch_size total_rows processed acc w
          = batch_loop tu fw combos path cols ht batch_size total_rows (processed + limit)
              (acc @ rs1) w1"
        using True sel Inr len
        by (subst batch_loop.simps) (simp add: limit_def [symmetric] w1_def)
      have "total_rows - (processed + limit) < total_rows - processed" using pos True by simp
      from less.hyps [OF this le sq1, of "acc @ rs1"]
      obtain w' qs where
        r: "batch_loop tu fw combos path cols ht batch_size total_rows (processed + limit)
              (acc @ rs1) w1 =
            Some (case process_batch tu fw combos
                         (take (total_rows - (processed + limit))
                            (drop (processed + limit) all_rows)) ht of
                    Inl e \<Rightarrow> Inl e | Inr rs \<Rightarrow> Inr ((acc @ rs1) @ rs), w')"
        and e: "w' = w1\<lparr>effects := effects w1 @ qs\<rparr>" "list_all is_batch_query qs"
        by blast
      have res: "(case process_batch tu fw combos
                         (take (total_rows - processed) (drop processed all_rows)) ht of
                    Inl e \<Rightarrow> Inl e | Inr rs \<Rightarrow> Inr (acc @ rs))
          = (case process_batch tu fw combos
                         (take (total_rows - (processed + limit))
                            (drop (processed + limit) all_rows)) ht of
                    Inl e \<Rightarrow> Inl e | Inr rs \<Rightarrow> Inr ((acc @ rs1) @ rs))"
        unfolding whole process_batch_append using Inr by (simp split: sum.splits)
      have "w' = w\<lparr>effects := effects w @ (BatchQuery path limit processed # qs)\<rparr>"
        using e by (simp add: w1_def)
      moreover have "list_all is_batch_query (BatchQuery path limit processed # qs)"
        using e q by simp
      ultimately show ?thesis
        using step r res True
        by (intro exI [of _ w'] exI [of _ "BatchQuery path limit processed # qs"]) simp
    qed
  qed
qed

lemma process_row_total:
  assumes "set (map fst fw) \<subseteq> set riasec_letters"
    and "length row = (if ht then 3 else 2)"
  shows "\<exists>c. classify_job tu fw combos (cell_str (row ! 1))
               (if ht then cell_str (row ! 2) else extract_title_from_link (row ! 0))
               (cell_str (row ! 0)) = Inr c
           \<and> length (riasec_code c) = 3
           \<and> process_row tu fw combos ht row =
               Inr [(''job_link'', OCell (row ! 0)),
                    (''job_skills'', OCell (row ! 1)),
                    (''extracted_title'',
                       OText (if ht then cell_str (row ! 2) else extract_title_from_link (row ! 0))),
                    (''riasec_code'', OText (riasec_code c)),
                    (''riasec_confidence'', ONumber (confidence c)),
                    (''primary_riasec_type'', OText (primary_type c)),
                    (''riasec_total_score'', ONumber (total_score c))]"
proof -
  let ?title = "if ht then cell_str (row ! 2) else extract_title_from_link (row ! 0)"
  obtain c where c: "classify_job tu fw combos (cell_str (row ! 1)) ?title (cell_str (row ! 0)) = Inr c"
    and l: "length (riasec_code c) = 3"
    using classify_job_returns_code [OF assms(1)] by blast
  show ?thesis
  proof (cases ht)
    case True
    then obtain a b d where row: "row = [a, b, d]"
      using assms(2) by (auto simp: length_Suc_conv numeral_3_eq_3)
    show ?thesis using c l True unfolding row by (auto simp: process_row_def)
  next
    case False
    then obtain a b where row: "row = [a, b]"
      using assms(2) by (auto simp: length_Suc_conv numeral_2_eq_2)
    show ?thesis using c l False unfolding row by (auto simp: process_row_def)
  qed
qed

lemma process_batch_total:
  assumes "set (map fst fw) \<subseteq> set riasec_letters"
    and "list_all (\<lambda>row. length row = (if ht then 3 else 2)) batch"
  shows "\<exists>rs. process_batch tu fw combos batch ht = Inr rs"
  using assms(2)
proof (induction batch)
  case Nil
  then show ?case by simp
next
  case (Cons row batch)
  then obtain rs where rs: "process_batch tu fw combos batch ht = Inr rs" by auto
  obtain r where "process_row tu fw combos ht row = Inr r"
    using process_row_total [OF assms(1), of row ht tu combos] Cons.prems by auto
  then show ?case using rs by simp
qed

lemma classify_job_confidence_bounds:
  assumes "classify_job tu fw combos skills title link = Inr c"
  shows "0 \<le> confidence c \<and> confidence c \<le> 1"
proof -
  note f = classify_job_fields [OF assms]
  have "list_all (\<lambda>x. 0 \<le> snd x) (scores c)" using f by simp
  then have "0 \<le> calculate_confidence (scores c) \<and> calculate_confidence (scores c) \<le> 1"
    by (rule calculate_confidence_bounds)
  then have "0 \<le> round3 tu (calculate_confidence (scores c))
      \<and> round3 tu (calculate_confidence (scores c)) \<le> 1"
    using round3_bounds by blast
  then show ?thesis using f by simp
qed

lemma select_cols_arity:
  assumes "title_col \<noteq> Some []"
  shows "length ([link_col, skills_col]
           @ (case title_col of None \<Rightarrow> [] | Some c \<Rightarrow> if c \<noteq> [] then [c] else []))
         = (if title_col \<noteq> None then 3 else 2)"
  using assms by (cases title_col) auto

lemma process_csv_file_run:
  assumes "count_query w input_path = Inr (length all_rows)"
    and "\<And>limit offset.
           select_query w input_path
             (comma_join ([link_col, skills_col]
                @ (case title_col of None \<Rightarrow> [] | Some c \<Rightarrow> if c \<noteq> [] then [c] else [])))
             limit offset = Inr (take limit (drop offset all_rows))"
    and "list_all (\<lambda>row. length row =
           length ([link_col, skills_col]
                     @ (case title_col of None \<Rightarrow> [] | Some c \<Rightarrow> if c \<noteq> [] then [c] else [])))
           all_rows"
    and "title_col \<noteq> Some []"
    and "0 < batch_size"
    and "set (map fst fw) \<subseteq> set riasec_letters"
    and "writable w output_path"
    and "total_rows = (case sample_size of None \<Rightarrow> length all_rows
                       | Some s \<Rightarrow> if s \<noteq> 0 then min (length all_rows) s else length all_rows)"
  shows "\<exists>df qs. process_batch tu fw combos (take total_rows all_rows) (title_col \<noteq> None) = Inr df
           \<and> list_all is_batch_query qs
           \<and> process_csv_file tu fw combos input_path output_path skills_col link_col title_col
                batch_size sample_size w =
              Some (if df = [] then Inl (KeyError ''riasec_code'') else Inr df,
                    w\<lparr>effects := effects w @ qs @ [Write output_path (output_format output_path) df]\<rparr>)"
proof -
  let ?cols = "[link_col, skills_col]
      @ (case title_col of None \<Rightarrow> [] | Some c \<Rightarrow> if c \<noteq> [] then [c] else [])"
  let ?ht = "title_col \<noteq> None"
  have le: "total_rows \<le> length all_rows"
    using assms(8) by (simp split: option.splits)
  have "list_all (\<lambda>row. length row = (if ?ht then 3 else 2)) all_rows"
    using assms(3) unfolding select_cols_arity [OF assms(4)] .
  then have "list_all (\<lambda>row. length row = (if ?ht then 3 else 2)) (take total_rows all_rows)"
    by (auto simp: list_all_iff dest: in_set_takeD)
  then obtain df where df: "process_batch tu fw combos (take total_rows all_rows) ?ht = Inr df"
    using process_batch_total [OF assms(6)] by blast
  have tk: "take (total_rows - 0) (drop 0 all_rows) = take total_rows all_rows" by simp
  obtain w' qs where
    r: "batch_loop tu fw combos input_path ?cols ?ht batch_size total_rows 0 [] w =
          Some (Inr ([] @ df), w')"
    and e: "w' = w\<lparr>effects := effects w @ qs\<rparr>" "list_all is_batch_query qs"
    using batch_loop_result [where sq = "select_query w" and w = w and processed = 0
        and acc = "[]" and tu = tu and fw = fw and combos = combos and ht = ?ht,
        OF assms(2) assms(5) le]
    unfolding tk df by auto
  have "process_csv_file tu fw combos input_path output_path skills_col link_col title_col
          batch_size sample_size w =
        Some (if df = [] then Inl (KeyError ''riasec_code'') else Inr df,
              w\<lparr>effects := effects w @ qs @ [Write output_path (output_format output_path) df]\<rparr>)"
    using assms(1,7) r unfolding e(1) assms(8)
    by (simp add: process_csv_file_def)
  then show ?thesis using df e(2) by blast
qed

lemma pipeline_rows:
  assumes "count_query w input_path = Inr (length all_rows)"
    and "\<And>limit offset.
           select_query w input_path
             (comma_join ([link_col, skills_col]
                @ (case title_col of None \<Rightarrow> [] | Some c \<Rightarrow> if c \<noteq> [] then [c] else [])))
             limit offset = Inr (take limit (drop offset all_rows))"
    and "list_all (\<lambda>row. length row =
           length ([link_col, skills_col]
                     @ (case title_col of None \<Rightarrow> [] | Some c \<Rightarrow> if c \<noteq> [] then [c] else [])))
           all_rows"
    and "title_col \<noteq> Some []"
    and "0 < batch_size"
    and "set (map fst fw) \<subseteq> set riasec_letters"
    and "writable w output_path"
    and "total_rows = (case sample_size of None \<Rightarrow> length all_rows
                       | Some s \<Rightarrow> if s \<noteq> 0 then min (length all_rows) s else length all_rows)"
  shows "\<exists>df qs. list_all is_batch_query qs
           \<and> process_csv_file tu fw combos input_path output_path skills_col link_col title_col
                batch_size sample_size w =
              Some (if df = [] then Inl (KeyError ''riasec_code'') else Inr df,
                    w\<lparr>effects := effects w @ qs @ [Write output_path (output_format output_path) df]\<rparr>)
           \<and> length df = total_rows
           \<and> (\<forall>i<total_rows.
                 \<exists>c. classify_job tu fw combos
                        (cell_str (all_rows ! i ! 1))
                        (if title_col \<noteq> None then cell_str (all_rows ! i ! 2)
                         else extract_title_from_link (all_rows ! i ! 0))
                        (cell_str (all_rows ! i ! 0)) = Inr c
                   \<and> length (riasec_code c) = 3 \<and> 0 \<le> confidence c \<and> confidence c \<le> 1
                   \<and> df ! i =
                       [(''job_link'', OCell (all_rows ! i ! 0)),
                        (''job_skills'', OCell (all_rows ! i ! 1)),
                        (''extracted_title'',
                           OText (if title_col \<noteq> None then cell_str (all_rows ! i ! 2)
                                  else extract_title_from_link (all_rows ! i ! 0))),
                        (''riasec_code'', OText (riasec_code c)),
                        (''riasec_confidence'', ONumber (confidence c)),
                        (''primary_riasec_type'', OText (primary_type c)),
                        (''riasec_total_score'', ONumber (total_score c))])"
proof -
  let ?ht = "title_col \<noteq> None"
  obtain df qs where df: "process_batch tu fw combos (take total_rows all_rows) ?ht = Inr df"
    and qs: "list_all is_batch_query qs"
    and run: "process_csv_file tu fw combos input_path output_path skills_col link_col title_col
                batch_size sample_size w =
              Some (if df = [] then Inl (KeyError ''riasec_code'') else Inr df,
                    w\<lparr>effects := effects w @ qs @ [Write output_path (output_format output_path) df]\<rparr>)"
    using process_csv_file_run [OF assms, of tu combos] by blast
  have le: "total_rows \<le> length all_rows"
    using assms(8) by (simp split: option.splits)
  have lt: "length (take total_rows all_rows) = total_rows" using le by simp
  note rows = process_batch_rows [OF df, unfolded lt]
  have len: "length df = total_rows" using rows by simp
  have ar: "list_all (\<lambda>row. length row = (if ?ht then 3 else 2)) all_rows"
    using assms(3) unfolding select_cols_arity [OF assms(4)] .
  have each: "\<exists>c. classify_job tu fw combos
                        (cell_str (all_rows ! i ! 1))
                        (if ?ht then cell_str (all_rows ! i ! 2)
                         else extract_title_from_link (all_rows ! i ! 0))
                        (cell_str (all_rows ! i ! 0)) = Inr c
                   \<and> length (riasec_code c) = 3 \<and> 0 \<le> confidence c \<and> confidence c \<le> 1
                   \<and> df ! i =
                       [(''job_link'', OCell (all_rows ! i ! 0)),
                        (''job_skills'', OCell (all_rows ! i ! 1)),
                        (''extracted_title'',
                           OText (if ?ht then cell_str (all_rows ! i ! 2)
                                  else extract_title_from_link (all_rows ! i ! 0))),
                        (''riasec_code'', OText (riasec_code c)),
                        (''riasec_confidence'', ONumber (confidence c)),
                        (''primary_riasec_type'', OText (primary_type c)),
                        (''riasec_total_score'', ONumber (total_score c))]"
    if i: "i < total_rows" for i
  proof -
    let ?row = "all_rows ! i"
    have nth: "take total_rows all_rows ! i = ?row" using i by simp
    have lr: "length ?row = (if ?ht then 3 else 2)"
      using ar i le by (simp add: list_all_length)
    obtain c where c: "classify_job tu fw combos (cell_str (?row ! 1))
               (if ?ht then cell_str (?row ! 2) else extract_title_from_link (?row ! 0))
               (cell_str (?row ! 0)) = Inr c"
      and l: "length (riasec_code c) = 3"
      and p: "process_row tu fw combos ?ht ?row =
               Inr [(''job_link'', OCell (?row ! 0)),
                    (''job_skills'', OCell (?row ! 1)),
                    (''extracted_title'',
                       OText (if ?ht then cell_str (?row ! 2) else extract_title_from_link (?row ! 0))),
                    (''riasec_code'', OText (riasec_code c)),
                    (''riasec_confidence'', ONumber (confidence c)),
                    (''primary_riasec_type'', OText (primary_type c)),
                    (''riasec_total_score'', ONumber (total_score c))]"
      using process_row_total [OF assms(6) lr, of tu combos] by blast
    have b: "0 \<le> confidence c \<and> confidence c \<le> 1"
      using classify_job_confidence_bounds [OF c] .
    have "process_row tu fw combos ?ht ?row = Inr (df ! i)" using rows i nth by simp
    then have d: "df ! i = [(''job_link'', OCell (?row ! 0)),
                    (''job_skills'', OCell (?row ! 1)),
                    (''extracted_title'',
                       OText (if ?ht then cell_str (?row ! 2) else extract_title_from_link (?row ! 0))),
                    (''riasec_code'', OText (riasec_code c)),
                    (''riasec_confidence'', ONumber (confidence c)),
                    (''primary_riasec_type'', OText (primary_type c)),
                    (''riasec_total_score'', ONumber (total_score c))]"
      using p by simp
    show ?thesis using c l b d by (intro exI [of _ c]) simp
  qed
  show ?thesis using qs run len each by blast
qed

text \<open>
  Claim C6. The engine answers the count query with N and every window query with the rows
  of the window, N rows in all, one cell per selected name. For every window size of at least
  1, with no sample cap below N, the run of the single-source pipeline ends and the data frame
  it saves to the destination has exactly N rows; row \<open>i\<close> carries the code, the confidence
  and the primary type that \<open>classify_job\<close> returns for row \<open>i\<close> of the source. The run returns
  that data frame when N is not 0. The framework's letters are among R, I, A, S, E, C, a title
  column, when one is named, has a name that is not empty, and the destination can be written.
\<close>

theorem process_csv_file_row_count:
  assumes "count_query w input_path = Inr (length all_rows)"
    and "\<And>limit offset.
           select_query w input_path
             (comma_join ([link_col, skills_col]
                @ (case title_col of None \<Rightarrow> [] | Some c \<Rightarrow> if c \<noteq> [] then [c] else [])))
             limit offset = Inr (take limit (drop offset all_rows))"
    and "list_all (\<lambda>row. length row =
           length ([link_col, skills_col]
                     @ (case title_col of None \<Rightarrow> [] | Some c \<Rightarrow> if c \<noteq> [] then [c] else [])))
           all_rows"
    and "title_col \<noteq> Some []"
    and "0 < batch_size"
    and "set (map fst RIASEC_TYPES) \<subseteq> set riasec_letters"
    and "writable w output_path"
    and "sample_size = None \<or> sample_size = Some 0
         \<or> (\<exists>s. sample_size = Some s \<and> length all_rows \<le> s)"
  shows "\<exists>df w'.
           process_csv_file tie_up RIASEC_TYPES COMBINATIONS input_path output_path skills_col
             link_col title_col batch_size sample_size w =
             Some (if df = [] then Inl (KeyError ''riasec_code'') else Inr df, w')
           \<and> effects w' \<noteq> []
           \<and> last (effects w') = Write output_path (output_format output_path) df
           \<and> length df = length all_rows
           \<and> (\<forall>i<length all_rows.
                 \<exists>c. classify_job tie_up RIASEC_TYPES COMBINATIONS
                        (cell_str (all_rows ! i ! 1))
                        (if title_col \<noteq> None then cell_str (all_rows ! i ! 2)
                         else extract_title_from_link (all_rows ! i ! 0))
                        (cell_str (all_rows ! i ! 0)) = Inr c
                   \<and> map_of (df ! i) ''riasec_code'' = Some (OText (riasec_code c))
                   \<and> map_of (df ! i) ''riasec_confidence'' = Some (ONumber (confidence c))
                   \<and> map_of (df ! i) ''primary_riasec_type'' = Some (OText (primary_type c)))"
proof -
  have total: "length all_rows =
      (case sample_size of None \<Rightarrow> length all_rows
       | Some s \<Rightarrow> if s \<noteq> 0 then min (length all_rows) s else length all_rows)"
    using assms(8) by (auto split: option.splits)
  obtain df qs where
    run: "process_csv_file tie_up RIASEC_TYPES COMBINATIONS input_path output_path skills_col
            link_col title_col batch_size sample_size w =
          Some (if df = [] then Inl (KeyError ''riasec_code'') else Inr df,
                w\<lparr>effects := effects w @ qs @ [Write output_path (output_format output_path) df]\<rparr>)"
    and len: "length df = length all_rows"
    and each: "\<forall>i<length all_rows.
                 \<exists>c. classify_job tie_up RIASEC_TYPES COMBINATIONS
                        (cell_str (all_rows ! i ! 1))
                        (if title_col \<noteq> None then cell_str (all_rows ! i ! 2)
                         else extract_title_from_link (all_rows ! i ! 0))
                        (cell_str (all_rows ! i ! 0)) = Inr c
                   \<and> length (riasec_code c) = 3 \<and> 0 \<le> confidence c \<and> confidence c \<le> 1
                   \<and> df ! i =
                       [(''job_link'', OCell (all_rows ! i ! 0)),
                        (''job_skills'', OCell (all_rows ! i ! 1)),
                        (''extracted_title'',
                           OText (if title_col \<noteq> None then cell_str (all_rows ! i ! 2)
                                  else extract_title_from_link (all_rows ! i ! 0))),
                        (''riasec_code'', OText (riasec_code c)),
                        (''riasec_confidence'', ONumber (confidence c)),
                        (''primary_riasec_type'', OText (primary_type c)),
                        (''riasec_total_score'', ONumber (total_score c))]"
    using pipeline_rows [OF assms(1-7) total, of tie_up COMBINATIONS] by blast
  let ?w' = "w\<lparr>effects := effects w @ qs @ [Write output_path (output_format output_path) df]\<rparr>"
  have "effects ?w' \<noteq> []" and "last (effects ?w') = Write output_path (output_format output_path) df"
    by simp_all
  moreover have "\<forall>i<length all_rows.
                 \<exists>c. classify_job tie_up RIASEC_TYPES COMBINATIONS
                        (cell_str (all_rows ! i ! 1))
                        (if title_col \<noteq> None then cell_str (all_rows ! i ! 2)
                         else extract_title_from_link (all_rows ! i ! 0))
                        (cell_str (all_rows ! i ! 0)) = Inr c
                   \<and> map_of (df ! i) ''riasec_code'' = Some (OText (riasec_code c))
                   \<and> map_of (df ! i) ''riasec_confidence'' = Some (ONumber (confidence c))
                   \<and> map_of (df ! i) ''primary_riasec_type'' = Some (OText (primary_type c))"
  proof (intro allI impI)
    fix i assume "i < length all_rows"
    then obtain c where c: "classify_job tie_up RIASEC_TYPES COMBINATIONS
                        (cell_str (all_rows ! i ! 1))
                        (if title_col \<noteq> None then cell_str (all_rows ! i ! 2)
                         else extract_title_from_link (all_rows ! i ! 0))
                        (cell_str (all_rows ! i ! 0)) = Inr c"
      and d: "df ! i =
                       [(''job_link'', OCell (all_rows ! i ! 0)),
                        (''job_skills'', OCell (all_rows ! i ! 1)),
                        (''extracted_title'',
                           OText (if title_col \<noteq> None then cell_str (all_rows ! i ! 2)
                                  else extract_title_from_link (all_rows ! i ! 0))),
                        (''riasec_code'', OText (riasec_code c)),
                        (''riasec_confidence'', ONumber (confidence c)),
                        (''primary_riasec_type'', OText (primary_type c)),
                        (''riasec_total_score'', ONumber (total_score c))]"
      using each by blast
    show "\<exists>c. classify_job tie_up RIASEC_TYPES COMBINATIONS
                        (cell_str (all_rows ! i ! 1))
                        (if title_col \<noteq> None then cell_str (all_rows ! i ! 2)
                         else extract_title_from_link (all_rows ! i ! 0))
                        (cell_str (all_rows ! i ! 0)) = Inr c
                   \<and> map_of (df ! i) ''riasec_code'' = Some (OText (riasec_code c))
                   \<and> map_of (df ! i) ''riasec_confidence'' = Some (ONumber (confidence c))
                   \<and> map_of (df ! i) ''primary_riasec_type'' = Some (OText (primary_type c))"
      using c unfolding d by (intro exI [of _ c]) simp
  qed
  ultimately show ?thesis using run len by blast
qed



section \<open>Concrete runs\<close>

theorem classify_job_code_shape_witness:
  "set (map fst embedded_types) \<subseteq> set riasec_letters
   \<and> (\<exists>r. classify_job ties_to_even embedded_types [] ''Python, SQL'' ''Data Analyst'' [] = Inr r
           \<and> length (riasec_code r) = 3 \<and> set (riasec_code r) \<subseteq> set ''RIASEC'')"
proof -
  have h: "set (map fst embedded_types) \<subseteq> set riasec_letters"
    by (simp add: embedded_types_def riasec_letters_def)
  show ?thesis
    using h classify_job_code_shape [OF h, of ties_to_even "[]" "''Python, SQL''" "''Data Analyst''" "[]"]
    by blast
qed

theorem calculate_confidence_monotone_witness:
  "list_all (\<lambda>x. 0 \<le> snd x) [(''R'', 0), (''I'', 3), (''A'', 3 / 2), (''S'', 0), (''E'', 0), (''C'', 0 :: real)]
   \<and> sum_list (map snd [(''R'', 0), (''I'', 3), (''A'', 3 / 2), (''S'', 0), (''E'', 0), (''C'', 0 :: real)]) \<noteq> 0
   \<and> calculate_confidence [(''R'', 0), (''I'', 3), (''A'', 3 / 2), (''S'', 0), (''E'', 0), (''C'', 0)]
       \<le> calculate_confidence [(''R'', 0), (''I'', 3 + 2), (''A'', 3 / 2), (''S'', 0), (''E'', 0), (''C'', 0)]"
  using calculate_confidence_monotone
    [of "[(''R'', 0), (''I'', 3), (''A'', 3 / 2), (''S'', 0), (''E'', 0), (''C'', 0)]" 1 2]
  by simp

theorem classify_job_confidence_witness:
  "classify_job ties_to_even example_types [] ''artistic'' ''sales'' [] =
     Inr \<lparr> riasec_code = ''EAR'', primary_type = ''Enterprising'',
           scores = [(''R'', 0), (''I'', 0), (''A'', 3 / 2), (''S'', 0), (''E'', 5), (''C'', 0)],
           confidence = 361 / 500, total_score = 13 / 2,
           description = ''No description available'', gift = [],
           matched_indicators = [(''A'', [''artistic(+1.5)'']), (''E'', [''sales(+3.0)''])] \<rparr>
   \<and> (13 / 2 :: real) = sum_list (map snd
         [(''R'', 0), (''I'', 0), (''A'', 3 / 2), (''S'', 0), (''E'', 5), (''C'', 0 :: real)])
   \<and> (\<exists>k. (361 / 500 :: real) = of_int k / 1000)
   \<and> \<bar>361 / 500 - calculate_confidence
         [(''R'', 0), (''I'', 0), (''A'', 3 / 2), (''S'', 0), (''E'', 5), (''C'', 0)]\<bar> \<le> 1 / 2000
   \<and> (0 :: real) \<le> 361 / 500 \<and> (361 / 500 :: real) \<le> 1"
proof -
  have h: "classify_job ties_to_even example_types [] ''artistic'' ''sales'' [] =
     Inr \<lparr> riasec_code = ''EAR'', primary_type = ''Enterprising'',
           scores = [(''R'', 0), (''I'', 0), (''A'', 3 / 2), (''S'', 0), (''E'', 5), (''C'', 0)],
           confidence = 361 / 500, total_score = 13 / 2,
           description = ''No description available'', gift = [],
           matched_indicators = [(''A'', [''artistic(+1.5)'']), (''E'', [''sales(+3.0)''])] \<rparr>"
    by code_simp
  show ?thesis
    using h classify_job_confidence [THEN conjunct2, rule_format, OF h] by simp
qed

theorem classify_job_confidence_counterexample:
  "classify_job ties_to_even embedded_types [] ''creative'' ''sales'' [] =
     Inr \<lparr> riasec_code = ''EAR'', primary_type = ''Enterprising'',
           scores = [(''R'', 0), (''I'', 0), (''A'', 3 / 2), (''S'', 0), (''E'', 5), (''C'', 0)],
           confidence = 361 / 500, total_score = 13 / 2,
           description = ''No description available'', gift = [],
           matched_indicators = [(''A'', [''creative(+1.5)'']), (''E'', [''sales(+3.0)''])] \<rparr>
   \<and> min (6 / 10 * (5 / (13 / 2)) + 4 / 10 * min ((13 / 2) / 10) 1) 1 = (469 / 650 :: real)
   \<and> (361 / 500 :: real) \<noteq> 469 / 650"
proof -
  have "classify_job ties_to_even embedded_types [] ''creative'' ''sales'' [] =
     Inr \<lparr> riasec_code = ''EAR'', primary_type = ''Enterprising'',
           scores = [(''R'', 0), (''I'', 0), (''A'', 3 / 2), (''S'', 0), (''E'', 5), (''C'', 0)],
           confidence = 361 / 500, total_score = 13 / 2,
           description = ''No description available'', gift = [],
           matched_indicators = [(''A'', [''creative(+1.5)'']), (''E'', [''sales(+3.0)''])] \<rparr>"
    by code_simp
  then show ?thesis by simp
qed

theorem determine_riasec_code_order_witness:
  "classify_job ties_to_even (rev example_types) [] ''welding'' ''plumber'' [] =
     Inr \<lparr> riasec_code = ''RIA'', primary_type = ''Unknown'',
           scores = [(''R'', 0), (''I'', 0), (''A'', 0), (''S'', 0), (''E'', 0), (''C'', 0)],
           confidence = 0, total_score = 0,
           description = ''No description available'', gift = [],
           matched_indicators = [] \<rparr>
   \<and> list_all (\<lambda>x. snd x = 0) [(''R'', 0), (''I'', 0), (''A'', 0), (''S'', 0), (''E'', 0), (''C'', 0 :: real)]
   \<and> concat (take 3 (map fst (sorted_scores
        [(''R'', 0), (''I'', 0), (''A'', 0), (''S'', 0), (''E'', 0), (''C'', 0)]))) = ''RIA''"
proof -
  have h: "classify_job ties_to_even (rev example_types) [] ''welding'' ''plumber'' [] =
     Inr \<lparr> riasec_code = ''RIA'', primary_type = ''Unknown'',
           scores = [(''R'', 0), (''I'', 0), (''A'', 0), (''S'', 0), (''E'', 0), (''C'', 0)],
           confidence = 0, total_score = 0,
           description = ''No description available'', gift = [],
           matched_indicators = [] \<rparr>"
    by code_simp
  show ?thesis
    using h determine_riasec_code_order [rule_format, OF h] by simp
qed

theorem strong_title_bonus_witness:
  "set (map fst example_types) \<subseteq> set riasec_letters
   \<and> distinct (map fst example_types)
   \<and> (''E'', \<lparr> type_name = Some ''Enterprising'', strong = [''sales'', ''Marketing''],
               moderate = [''strategic'', ''sales''], type_keywords = [''deal''] \<rparr>)
       \<in> set example_types
   \<and> calculate_riasec_scores example_types ''Sales, Marketing'' ''Sales Manager''
       = Inr ([(''R'', 0), (''I'', 0), (''A'', 0), (''S'', 0), (''E'', 8), (''C'', 0)],
              [(''R'', []), (''I'', []), (''A'', []), (''S'', []),
               (''E'', [''sales(+3.0)'', ''Marketing(+3.0)'']), (''C'', [])])
   \<and> (\<exists>sc matched mods kws.
         calculate_riasec_scores example_types ''Sales, Marketing'' ''Sales Manager''
           = Inr (sc, matched)
         \<and> map_of sc ''E'' = Some (8 + MODERATE_INDICATOR_WEIGHT * real (length mods)
                                     + KEYWORD_WEIGHT * real (length kws))
         \<and> map_of matched ''E''
             = Some ([''sales(+3.0)'', ''Marketing(+3.0)'']
                     @ map (\<lambda>skill. skill @ ''(+1.5)'') mods
                     @ map (\<lambda>keyword. keyword @ ''(+1.0)'') kws))"
proof -
  let ?td = "\<lparr> type_name = Some ''Enterprising'', strong = [''sales'', ''Marketing''],
               moderate = [''strategic'', ''sales''], type_keywords = [''deal''] \<rparr>"
  have h1: "set (map fst example_types) \<subseteq> set riasec_letters"
    by (simp add: example_types_def riasec_letters_def)
  have h2: "distinct (map fst example_types)" by (simp add: example_types_def)
  have h3: "(''E'', ?td) \<in> set example_types" by (simp add: example_types_def)
  have e1: "(\<Sum>skill\<leftarrow>strong ?td.
                if sublist (lower skill) (normalize_text (''Sales Manager'' @ '' '' @ ''Sales, Marketing''))
                then (if sublist (lower skill) (normalize_text ''Sales Manager'')
                      then STRONG_INDICATOR_WEIGHT + TITLE_BONUS_WEIGHT
                      else STRONG_INDICATOR_WEIGHT)
                else 0) = 8"
    by code_simp
  have e2: "map (\<lambda>skill. skill @ ''(+3.0)'')
              (filter (\<lambda>skill. sublist (lower skill)
                         (normalize_text (''Sales Manager'' @ '' '' @ ''Sales, Marketing'')))
                 (strong ?td))
            = [''sales(+3.0)'', ''Marketing(+3.0)'']"
    by code_simp
  have r: "calculate_riasec_scores example_types ''Sales, Marketing'' ''Sales Manager''
       = Inr ([(''R'', 0), (''I'', 0), (''A'', 0), (''S'', 0), (''E'', 8), (''C'', 0)],
              [(''R'', []), (''I'', []), (''A'', []), (''S'', []),
               (''E'', [''sales(+3.0)'', ''Marketing(+3.0)'']), (''C'', [])])"
    by code_simp
  note t = strong_title_bonus [OF h1 h2 h3, of "''Sales, Marketing''" "''Sales Manager''",
      unfolded e1 e2]
  have "\<exists>sc matched mods kws.
         calculate_riasec_scores example_types ''Sales, Marketing'' ''Sales Manager''
           = Inr (sc, matched)
         \<and> map_of sc ''E'' = Some (8 + MODERATE_INDICATOR_WEIGHT * real (length mods)
                                     + KEYWORD_WEIGHT * real (length kws))
         \<and> map_of matched ''E''
             = Some ([''sales(+3.0)'', ''Marketing(+3.0)'']
                     @ map (\<lambda>skill. skill @ ''(+1.5)'') mods
                     @ map (\<lambda>keyword. keyword @ ''(+1.0)'') kws)"
    using t by blast
  then show ?thesis using h1 h2 h3 r by blast
qed

text \<open>
  Claim C4. The framework gives category A the strong list \<open>graphic design\<close> and the moderate
  list \<open>artistic\<close>, \<open>art\<close>. For the skills \<open>artistic\<close> and no title, no strong phrase of A is
  found, and both moderate phrases are substrings of the combined text, so that both are to be
  counted and the score of A is 3.0. The source counts \<open>artistic\<close> only: \<open>art\<close> is skipped
  because it occurs inside the trace entry \<open>artistic(+1.5)\<close>, and the score of A is 1.5.
\<close>

theorem moderate_guard_reads_all_entries:
  "map_of example_types ''A''
     = Some \<lparr> type_name = Some ''Artistic'', strong = [''graphic design''],
              moderate = [''artistic'', ''art''], type_keywords = [] \<rparr>
   \<and> normalize_text ([] @ '' '' @ ''artistic'') = ''artistic''
   \<and> filter (\<lambda>skill. sublist (lower skill) ''artistic'') [''graphic design''] = []
   \<and> filter (\<lambda>skill. sublist (lower skill) ''artistic'') [''artistic'', ''art'']
       = [''artistic'', ''art'']
   \<and> calculate_riasec_scores example_types ''artistic'' []
      = Inr ([(''R'', 0), (''I'', 0), (''A'', 3 / 2), (''S'', 0), (''E'', 0), (''C'', 0)],
             [(''R'', []), (''I'', []), (''A'', [''artistic(+1.5)'']), (''S'', []), (''E'', []),
              (''C'', [])])"
  by code_simp

theorem process_csv_file_row_count_witness:
  "count_query example_world ''jobs.csv''
     = Inr (length [[CText ''https://www.linkedin.com/jobs/view/sales-manager-at-acme-123'',
                     CText ''Sales, Marketing''],
                    [CNull, CText ''graphic design'']])
   \<and> (\<forall>limit offset.
         select_query example_world ''jobs.csv'' ''job_link, job_skills'' limit offset
           = Inr (take limit (drop offset
                   [[CText ''https://www.linkedin.com/jobs/view/sales-manager-at-acme-123'',
                     CText ''Sales, Marketing''],
                    [CNull, CText ''graphic design'']])))
   \<and> (0 :: nat) < 1
   \<and> set (map fst example_types) \<subseteq> set riasec_letters
   \<and> writable example_world ''out.parquet''
   \<and> (\<exists>df w'. process_csv_file ties_to_even example_types [] ''jobs.csv'' ''out.parquet''
                   ''job_skills'' ''job_link'' None 1 None example_world
                 = Some (if df = [] then Inl (KeyError ''riasec_code'') else Inr df, w')
               \<and> last (effects w') = Write ''out.parquet'' (output_format ''out.parquet'') df
               \<and> length df = 2)"
proof -
  let ?rows = "[[CText ''https://www.linkedin.com/jobs/view/sales-manager-at-acme-123'',
                 CText ''Sales, Marketing''],
                [CNull, CText ''graphic design'']]"
  let ?cols = "[''job_link'', ''job_skills'']
      @ (case None :: string option of None \<Rightarrow> [] | Some c \<Rightarrow> if c \<noteq> [] then [c] else [])"
  have h1: "count_query example_world ''jobs.csv'' = Inr (length ?rows)"
    by (simp add: example_world_def example_table_def)
  have h2: "select_query example_world ''jobs.csv'' (comma_join ?cols) limit offset
      = Inr (take limit (drop offset ?rows))" for limit offset
    by (simp add: example_world_def example_table_def)
  have h3: "list_all (\<lambda>row. length row = length ?cols) ?rows" by simp
  have h4: "(None :: string option) \<noteq> Some []" by simp
  have h5: "(0 :: nat) < 1" by simp
  have h6: "set (map fst example_types) \<subseteq> set riasec_letters"
    by (simp add: example_types_def riasec_letters_def)
  have h7: "writable example_world ''out.parquet''" by (simp add: example_world_def)
  have h8: "(None :: nat option) = None \<or> (None :: nat option) = Some 0
      \<or> (\<exists>s. (None :: nat option) = Some s \<and> length ?rows \<le> s)"
    by simp
  have h2': "\<forall>limit offset.
         select_query example_world ''jobs.csv'' ''job_link, job_skills'' limit offset
           = Inr (take limit (drop offset ?rows))"
    using h2 by simp
  have n: "length ?rows = 2" by simp
  have "\<exists>df w'. process_csv_file ties_to_even example_types [] ''jobs.csv'' ''out.parquet''
                   ''job_skills'' ''job_link'' None 1 None example_world
                 = Some (if df = [] then Inl (KeyError ''riasec_code'') else Inr df, w')
               \<and> last (effects w') = Write ''out.parquet'' (output_format ''out.parquet'') df
               \<and> length df = 2"
    using process_csv_file_row_count [OF h1 h2 h3 h4 h5 h6 h7 h8,
        where tie_up = ties_to_even and COMBINATIONS = "[]"]
    unfolding n by blast
  then show ?thesis using h1 h2' h5 h6 h7 by blast
qed





end
